theory Spec2Isabelle
  imports Complex_Main "HOL-Library.Word"
begin

unbundle bit_operations_syntax

section \<open>curtkr.c: the trail ring buffer and its renderer\<close>

subsection \<open>C arithmetic\<close>

text \<open>
  C's \<^verbatim>\<open>%\<close> on \<^verbatim>\<open>int\<close> truncates towards zero: the remainder has the sign of the
  dividend. HOL's \<open>mod\<close> rounds towards minus infinity, so the C operator is written out.
\<close>

definition c_rem :: "int \<Rightarrow> int \<Rightarrow> int" where
  "c_rem a b = sgn a * (\<bar>a\<bar> mod \<bar>b\<bar>)"

text \<open>The range of a C \<^verbatim>\<open>int\<close> (32 bits): arithmetic outside it is undefined behaviour.\<close>

definition in_int_range :: "int \<Rightarrow> bool" where
  "in_int_range v \<longleftrightarrow> - (2 ^ 31) \<le> v \<and> v < 2 ^ 31"

subsection \<open>IEEE 754 binary64 arithmetic\<close>

text \<open>
  A finite \<^verbatim>\<open>double\<close> is the rational number it denotes. Every arithmetic operation of
  the source on doubles is the exact operation followed by rounding to the nearest binary64
  value, ties to even (the default rounding mode, each operation evaluated in double
  precision). The values that arise in \<^verbatim>\<open>draw_trail\<close> are quotients, differences and
  products of numbers between \<open>0\<close> and \<open>50\<close>, and converted \<^verbatim>\<open>int\<close>s, so neither
  overflow to infinity nor NaN can occur, and they are left out of the model. Subnormal
  numbers are covered by the lower bound on the exponent.
\<close>

type_synonym double = rat

text \<open>The number of binary digits of a positive integer.\<close>

function bit_length :: "int \<Rightarrow> nat" where
  "bit_length n = (if n \<le> 0 then 0 else Suc (bit_length (n div 2)))"
  by pat_completeness auto
termination
  by (relation "measure nat") auto

declare bit_length.simps [simp del]

definition pow2 :: "int \<Rightarrow> rat" where
  "pow2 e = (if 0 \<le> e then 2 ^ nat e else 1 / 2 ^ nat (- e))"

text \<open>
  \<open>ilog2 q\<close> is \<open>\<lfloor>log\<^sub>2 q\<rfloor>\<close> for a positive rational \<open>q\<close>: one less than the
  number of digits of its integer part when \<open>1 \<le> q\<close>, and otherwise the negated
  number of digits of \<open>\<lceil>1 / q\<rceil> - 1\<close>.
\<close>

definition ilog2 :: "rat \<Rightarrow> int" where
  "ilog2 q =
     (if 1 \<le> q then int (bit_length \<lfloor>q\<rfloor>) - 1 else - int (bit_length (\<lceil>1 / q\<rceil> - 1)))"

text \<open>Rounding to the nearest integer, ties to the even one.\<close>

definition rne :: "rat \<Rightarrow> int" where
  "rne q =
     (let f = \<lfloor>q\<rfloor>; r = q - of_int f
      in if r < 1 / 2 then f
         else if 1 / 2 < r then f + 1
         else if even f then f else f + 1)"

text \<open>
  \<open>round_double q\<close> is the binary64 value nearest to \<open>q\<close>: a 53-bit significand
  times a power of two, the exponent of the last place not below \<open>-1074\<close>.
\<close>

definition round_double :: "rat \<Rightarrow> double" where
  "round_double q =
     (if q = 0 then 0
      else let e = max (ilog2 \<bar>q\<bar> - 52) (- 1074)
           in sgn q * of_int (rne (\<bar>q\<bar> / pow2 e)) * pow2 e)"

definition double_of_int :: "int \<Rightarrow> double" where
  "double_of_int i = round_double (of_int i)"

definition dsub :: "double \<Rightarrow> double \<Rightarrow> double" where
  "dsub a b = round_double (a - b)"

definition dmul :: "double \<Rightarrow> double \<Rightarrow> double" where
  "dmul a b = round_double (a * b)"

definition ddiv :: "double \<Rightarrow> double \<Rightarrow> double" where
  "ddiv a b = round_double (a / b)"

subsection \<open>Configuration\<close>

definition TRAIL_LENGTH :: int where
  "TRAIL_LENGTH = 50"

definition TRAIL_RADIUS :: double where
  "TRAIL_RADIUS = round_double 3"

definition UPDATE_INTERVAL :: int where
  "UPDATE_INTERVAL = 16666"

definition TRAIL_R :: double where
  "TRAIL_R = round_double (2 / 10)"

definition TRAIL_G :: double where
  "TRAIL_G = round_double (5 / 10)"

definition TRAIL_B :: double where
  "TRAIL_B = round_double 1"

definition CLICK_R :: double where
  "CLICK_R = round_double 1"

definition CLICK_G :: double where
  "CLICK_G = round_double 0"

definition CLICK_B :: double where
  "CLICK_B = round_double 0"

text \<open>
  \<^verbatim>\<open>M_PI\<close> comes from \<^verbatim>\<open>math.h\<close>, where it is the literal
  \<^verbatim>\<open>3.14159265358979323846\<close>.
\<close>

definition M_PI :: double where
  "M_PI = round_double (314159265358979323846 / 100000000000000000000)"

subsection \<open>The trail buffer\<close>

text \<open>
  The struct \<^verbatim>\<open>TrailPoint\<close>. Its fields \<^verbatim>\<open>x\<close> and \<^verbatim>\<open>y\<close> are \<open>tp_x\<close> and
  \<open>tp_y\<close> here, so that \<open>x\<close> and \<open>y\<close> stay free for variables. The flags are C
  \<^verbatim>\<open>int\<close>s: zero is false, anything else is true. The coordinates are C \<^verbatim>\<open>int\<close>s
  too; they are stored and converted to \<^verbatim>\<open>double\<close>, never computed with, so they are
  plain integers here.
\<close>

record TrailPoint =
  tp_x :: int
  tp_y :: int
  valid :: int
  clicked :: int

text \<open>The two globals: the array \<^verbatim>\<open>trail_points\<close> and the write index \<^verbatim>\<open>trail_head\<close>.\<close>

record trail =
  trail_points :: "TrailPoint list"
  trail_head :: int

text \<open>
  An array access outside the array is undefined behaviour in C. In the model it is a
  fault, so that a run without a fault is a run whose accesses are all in bounds.
\<close>

datatype fault = OutOfBounds

definition array_get :: "'a list \<Rightarrow> int \<Rightarrow> fault + 'a" where
  "array_get a i =
     (if 0 \<le> i \<and> i < int (length a) then Inr (a ! nat i) else Inl OutOfBounds)"

definition array_upd :: "'a list \<Rightarrow> int \<Rightarrow> ('a \<Rightarrow> 'a) \<Rightarrow> fault + 'a list" where
  "array_upd a i f =
     (if 0 \<le> i \<and> i < int (length a) then Inr (a[nat i := f (a ! nat i)])
      else Inl OutOfBounds)"

text \<open>
  The state at program start: \<^verbatim>\<open>trail_head = 0\<close> by its initialiser, and
  \<^verbatim>\<open>memset(trail_points, 0, sizeof(trail_points))\<close> at the top of \<^verbatim>\<open>main\<close>.
\<close>

definition zero_point :: TrailPoint where
  "zero_point = \<lparr>tp_x = 0, tp_y = 0, valid = 0, clicked = 0\<rparr>"

definition init_trail :: trail where
  "init_trail = \<lparr>trail_points = replicate (nat TRAIL_LENGTH) zero_point, trail_head = 0\<rparr>"

text \<open>
  The button masks of \<^verbatim>\<open>X11/X.h\<close>: \<^verbatim>\<open>Button1Mask = 1<<8\<close> up to
  \<^verbatim>\<open>Button5Mask = 1<<12\<close>. The mask returned by \<^verbatim>\<open>XQueryPointer\<close> is an
  \<^verbatim>\<open>unsigned int\<close>.
\<close>

definition Button1Mask :: "32 word" where "Button1Mask = push_bit 8 1"
definition Button2Mask :: "32 word" where "Button2Mask = push_bit 9 1"
definition Button3Mask :: "32 word" where "Button3Mask = push_bit 10 1"
definition Button4Mask :: "32 word" where "Button4Mask = push_bit 11 1"
definition Button5Mask :: "32 word" where "Button5Mask = push_bit 12 1"

definition any_button :: "32 word \<Rightarrow> bool" where
  "any_button mask_return \<longleftrightarrow>
     mask_return AND (Button1Mask OR Button2Mask OR Button3Mask OR Button4Mask OR Button5Mask) \<noteq> 0"

text \<open>
  Step 2 of the main loop (lines 217 to 230): the four field writes at
  \<^verbatim>\<open>trail_points[trail_head]\<close>, then the head moves.
\<close>

definition store_point :: "int \<Rightarrow> int \<Rightarrow> 32 word \<Rightarrow> trail \<Rightarrow> fault + trail" where
  "store_point root_x_return root_y_return mask_return s =
     (case array_upd (trail_points s) (trail_head s)
             (\<lambda>p. p\<lparr>tp_x := root_x_return, tp_y := root_y_return, valid := 1,
                     clicked := (if any_button mask_return then 1 else 0)\<rparr>) of
        Inl e \<Rightarrow> Inl e
      | Inr a \<Rightarrow>
          Inr \<lparr>trail_points = a, trail_head = c_rem (trail_head s + 1) TRAIL_LENGTH\<rparr>)"

text \<open>Pushing a sequence of pointer samples, one per loop iteration, oldest first.\<close>

type_synonym sample = "int \<times> int \<times> 32 word"

fun store_points :: "sample list \<Rightarrow> trail \<Rightarrow> fault + trail" where
  "store_points [] s = Inr s"
| "store_points ((x, y, m) # ps) s =
     (case store_point x y m s of Inl e \<Rightarrow> Inl e | Inr s' \<Rightarrow> store_points ps s')"

text \<open>The slot a sample leaves behind in the array.\<close>

definition point_of :: "sample \<Rightarrow> TrailPoint" where
  "point_of p =
     (case p of (x, y, m) \<Rightarrow>
        \<lparr>tp_x = x, tp_y = y, valid = 1, clicked = (if any_button m then 1 else 0)\<rparr>)"

subsection \<open>The renderer\<close>

text \<open>
  Cairo is an external library: \<^verbatim>\<open>draw_trail\<close> is modelled by the sequence of calls it
  makes on the context \<^verbatim>\<open>cr\<close>, with their arguments converted to \<^verbatim>\<open>double\<close> as the
  prototypes demand.
\<close>

datatype cairo_operator_t = CAIRO_OPERATOR_SOURCE | CAIRO_OPERATOR_OVER

datatype cairo_call =
    cairo_set_source_rgba double double double double
  | cairo_set_operator cairo_operator_t
  | cairo_paint
  | cairo_arc double double double double double
  | cairo_fill

text \<open>Line 65: the slot read at age \<open>i\<close>.\<close>

definition current_index :: "trail \<Rightarrow> int \<Rightarrow> int" where
  "current_index s i = c_rem (trail_head s - 1 - i + TRAIL_LENGTH) TRAIL_LENGTH"

text \<open>Line 71: \<^verbatim>\<open>double alpha = 1.0 - ((double)i / TRAIL_LENGTH);\<close>\<close>

definition alpha_at :: "int \<Rightarrow> double" where
  "alpha_at i = dsub (round_double 1) (ddiv (double_of_int i) (double_of_int TRAIL_LENGTH))"

text \<open>
  Lines 67 to 89: what the loop body does with the slot \<open>p\<close> it has read, at age \<open>i\<close>.
  Both \<^verbatim>\<open>continue\<close> statements leave the body without a call.
\<close>

definition paint_point :: "TrailPoint \<Rightarrow> int \<Rightarrow> cairo_call list" where
  "paint_point p i =
     (if valid p = 0 then []
      else
        let alpha = alpha_at i
        in if alpha < round_double (5 / 100) then []
           else
             [if clicked p \<noteq> 0
              then cairo_set_source_rgba CLICK_R CLICK_G CLICK_B
                     (dmul alpha (round_double (9 / 10)))
              else cairo_set_source_rgba TRAIL_R TRAIL_G TRAIL_B
                     (dmul alpha (round_double (8 / 10))),
              cairo_arc (double_of_int (tp_x p)) (double_of_int (tp_y p)) TRAIL_RADIUS
                (double_of_int 0) (dmul (double_of_int 2) M_PI),
              cairo_fill])"

text \<open>
  The body of the loop of \<^verbatim>\<open>draw_trail\<close> (lines 65 to 89) for one age \<open>i\<close>: the read
  of \<^verbatim>\<open>trail_points[current_index]\<close>, then the painting.
\<close>

definition draw_point :: "trail \<Rightarrow> int \<Rightarrow> fault + cairo_call list" where
  "draw_point s i =
     (case array_get (trail_points s) (current_index s i) of
        Inl e \<Rightarrow> Inl e
      | Inr p \<Rightarrow> Inr (paint_point p i))"

text \<open>The loop \<^verbatim>\<open>for (int i = 0; i < TRAIL_LENGTH; ++i)\<close>, entered at \<open>i\<close>.\<close>

function draw_loop :: "trail \<Rightarrow> int \<Rightarrow> fault + cairo_call list" where
  "draw_loop s i =
     (if i < TRAIL_LENGTH then
        (case draw_point s i of
           Inl e \<Rightarrow> Inl e
         | Inr calls \<Rightarrow>
             (case draw_loop s (i + 1) of
                Inl e \<Rightarrow> Inl e
              | Inr rest \<Rightarrow> Inr (calls @ rest)))
      else Inr [])"
  by pat_completeness auto
termination
  by (relation "measure (\<lambda>(s, i). nat (TRAIL_LENGTH - i))") auto

declare draw_loop.simps [simp del]

text \<open>Lines 58 to 61: the clear that opens every pass.\<close>

definition clear_calls :: "cairo_call list" where
  "clear_calls =
     [cairo_set_source_rgba (double_of_int 0) (double_of_int 0) (double_of_int 0)
        (double_of_int 0),
      cairo_set_operator CAIRO_OPERATOR_SOURCE,
      cairo_paint,
      cairo_set_operator CAIRO_OPERATOR_OVER]"

text \<open>
  \<^verbatim>\<open>draw_trail(cr, width, height)\<close>: the calls made on \<^verbatim>\<open>cr\<close>, in order. The trail
  is the pair of globals the function reads.
\<close>

definition draw_trail :: "int \<Rightarrow> int \<Rightarrow> trail \<Rightarrow> fault + cairo_call list" where
  "draw_trail width height s =
     (case draw_loop s 0 of
        Inl e \<Rightarrow> Inl e
      | Inr calls \<Rightarrow> Inr (clear_calls @ calls))"

subsection \<open>The main loop\<close>

text \<open>
  What one iteration does that can be seen from outside: the coordinate readout on
  standard output, the warning on standard error, the Cairo calls, the flush and the
  sleeps.
\<close>

datatype event =
    PrintCoordinates int int
  | PrintQueryFailed
  | WarnQueryFailed
  | Cairo cairo_call
  | SurfaceFlush
  | Usleep int

text \<open>
  The body of \<^verbatim>\<open>while (keep_running)\<close> (lines 205 to 246). The answer of
  \<^verbatim>\<open>XQueryPointer\<close> is \<open>None\<close> when it returns \<^verbatim>\<open>False\<close>, and the root
  coordinates and the button mask otherwise.
\<close>

definition loop_body ::
  "int \<Rightarrow> int \<Rightarrow> sample option \<Rightarrow> trail \<Rightarrow> fault + (trail \<times> event list)" where
  "loop_body width height result s =
     (case result of
        Some (root_x_return, root_y_return, mask_return) \<Rightarrow>
          (case store_point root_x_return root_y_return mask_return s of
             Inl e \<Rightarrow> Inl e
           | Inr s' \<Rightarrow>
               (case draw_trail width height s' of
                  Inl e \<Rightarrow> Inl e
                | Inr calls \<Rightarrow>
                    Inr (s', PrintCoordinates root_x_return root_y_return # map Cairo calls
                             @ [SurfaceFlush, Usleep UPDATE_INTERVAL])))
      | None \<Rightarrow>
          Inr (s, [PrintQueryFailed, WarnQueryFailed, Usleep 100000, Usleep UPDATE_INTERVAL]))"

text \<open>
  The loop runs as long as \<^verbatim>\<open>keep_running\<close> is set. The list holds the answers of
  \<^verbatim>\<open>XQueryPointer\<close> in the iterations entered before the signal handler clears the flag;
  the loop is left when the list is used up.
\<close>

fun main_loop ::
  "int \<Rightarrow> int \<Rightarrow> sample option list \<Rightarrow> trail \<Rightarrow> fault + (trail \<times> event list)" where
  "main_loop width height [] s = Inr (s, [])"
| "main_loop width height (result # results) s =
     (case loop_body width height result s of
        Inl e \<Rightarrow> Inl e
      | Inr (s', evs) \<Rightarrow>
          (case main_loop width height results s' of
             Inl e \<Rightarrow> Inl e
           | Inr (s'', evs') \<Rightarrow> Inr (s'', evs @ evs')))"

subsection \<open>The drawing context\<close>

text \<open>
  What the calls do to the surface is Cairo's business. The part of its contract that the
  renderer relies on is kept: the context holds a source colour, an operator, a current
  path and the target surface; \<^verbatim>\<open>cairo_arc\<close> extends the path, \<^verbatim>\<open>cairo_paint\<close>
  applies the source to the whole surface, \<^verbatim>\<open>cairo_fill\<close> applies it inside the path
  and clears the path. How pixels are composed is left open: \<open>paint\<close> and \<open>fill\<close> are
  parameters, and the surface is any type.
\<close>

type_synonym rgba = "double \<times> double \<times> double \<times> double"

type_synonym arc = "double \<times> double \<times> double \<times> double \<times> double"

record 'surf cairo_t =
  source :: rgba
  operator :: cairo_operator_t
  path :: "arc list"
  target :: 'surf

definition exec_call ::
  "(cairo_operator_t \<Rightarrow> rgba \<Rightarrow> 'surf \<Rightarrow> 'surf) \<Rightarrow>
   (cairo_operator_t \<Rightarrow> rgba \<Rightarrow> arc list \<Rightarrow> 'surf \<Rightarrow> 'surf) \<Rightarrow>
   cairo_call \<Rightarrow> 'surf cairo_t \<Rightarrow> 'surf cairo_t" where
  "exec_call paint fill c cr =
     (case c of
        cairo_set_source_rgba r g b a \<Rightarrow> cr\<lparr>source := (r, g, b, a)\<rparr>
      | cairo_set_operator op \<Rightarrow> cr\<lparr>operator := op\<rparr>
      | cairo_paint \<Rightarrow> cr\<lparr>target := paint (operator cr) (source cr) (target cr)\<rparr>
      | cairo_arc xc yc radius angle1 angle2 \<Rightarrow>
          cr\<lparr>path := path cr @ [(xc, yc, radius, angle1, angle2)]\<rparr>
      | cairo_fill \<Rightarrow>
          cr\<lparr>target := fill (operator cr) (source cr) (path cr) (target cr), path := []\<rparr>)"

fun exec_calls ::
  "(cairo_operator_t \<Rightarrow> rgba \<Rightarrow> 'surf \<Rightarrow> 'surf) \<Rightarrow>
   (cairo_operator_t \<Rightarrow> rgba \<Rightarrow> arc list \<Rightarrow> 'surf \<Rightarrow> 'surf) \<Rightarrow>
   cairo_call list \<Rightarrow> 'surf cairo_t \<Rightarrow> 'surf cairo_t" where
  "exec_calls paint fill [] cr = cr"
| "exec_calls paint fill (c # cs) cr = exec_calls paint fill cs (exec_call paint fill c cr)"

text \<open>One render pass on a context: the calls of \<^verbatim>\<open>draw_trail\<close>, executed in order.\<close>

definition render ::
  "(cairo_operator_t \<Rightarrow> rgba \<Rightarrow> 'surf \<Rightarrow> 'surf) \<Rightarrow>
   (cairo_operator_t \<Rightarrow> rgba \<Rightarrow> arc list \<Rightarrow> 'surf \<Rightarrow> 'surf) \<Rightarrow>
   int \<Rightarrow> int \<Rightarrow> trail \<Rightarrow> 'surf cairo_t \<Rightarrow> fault + 'surf cairo_t" where
  "render paint fill width height s cr =
     (case draw_trail width height s of
        Inl e \<Rightarrow> Inl e
      | Inr calls \<Rightarrow> Inr (exec_calls paint fill calls cr))"

text \<open>
  With \<^verbatim>\<open>CAIRO_OPERATOR_SOURCE\<close> the source replaces the destination: what a paint
  leaves does not depend on what was there.
\<close>

definition source_replaces :: "(cairo_operator_t \<Rightarrow> rgba \<Rightarrow> 'surf \<Rightarrow> 'surf) \<Rightarrow> bool" where
  "source_replaces paint \<longleftrightarrow>
     (\<forall>c t t'. paint CAIRO_OPERATOR_SOURCE c t = paint CAIRO_OPERATOR_SOURCE c t')"

text \<open>A surface for trying the renderer out: the list of what has been drawn on it.\<close>

datatype mark = Painted cairo_operator_t rgba | Filled cairo_operator_t rgba "arc list"

definition log_paint :: "cairo_operator_t \<Rightarrow> rgba \<Rightarrow> mark list \<Rightarrow> mark list" where
  "log_paint op c t =
     (case op of
        CAIRO_OPERATOR_SOURCE \<Rightarrow> [Painted op c]
      | CAIRO_OPERATOR_OVER \<Rightarrow> t @ [Painted op c])"

definition log_fill :: "cairo_operator_t \<Rightarrow> rgba \<Rightarrow> arc list \<Rightarrow> mark list \<Rightarrow> mark list" where
  "log_fill op c p t = t @ [Filled op c p]"

subsection \<open>Well-formed states\<close>

text \<open>The array has its \<^verbatim>\<open>TRAIL_LENGTH\<close> slots and the head points into it.\<close>

definition trail_ok :: "trail \<Rightarrow> bool" where
  "trail_ok s \<longleftrightarrow>
     int (length (trail_points s)) = TRAIL_LENGTH \<and> 0 \<le> trail_head s \<and> trail_head s < TRAIL_LENGTH"

text \<open>The slot that age \<open>i\<close> shows after the samples \<open>ps\<close> have been stored, oldest first.\<close>

definition slot_of_age :: "sample list \<Rightarrow> int \<Rightarrow> TrailPoint" where
  "slot_of_age ps i =
     (if i < int (length ps) then point_of (ps ! nat (int (length ps) - 1 - i)) else zero_point)"

text \<open>
  What the buffer looks like after the samples \<open>ps\<close>: the head has advanced once per
  sample, and age \<open>i\<close> counted back from the head finds the \<open>i\<close>-th newest sample.
\<close>

definition ring_inv :: "sample list \<Rightarrow> trail \<Rightarrow> bool" where
  "ring_inv ps s \<longleftrightarrow>
     trail_ok s \<and> trail_head s = int (length ps) mod 50 \<and>
     (\<forall>i. 0 \<le> i \<and> i < 50 \<longrightarrow>
        trail_points s ! nat ((int (length ps) - 1 - i) mod 50) = slot_of_age ps i)"

text \<open>The samples of a run: the answers of the queries that succeeded, in order.\<close>

fun answered :: "sample option list \<Rightarrow> sample list" where
  "answered [] = []"
| "answered (None # rs) = answered rs"
| "answered (Some p # rs) = p # answered rs"

text \<open>A buffer for trying the renderer out: every slot holds the same point.\<close>

definition uniform_trail :: "TrailPoint \<Rightarrow> trail" where
  "uniform_trail p = \<lparr>trail_points = replicate (nat TRAIL_LENGTH) p, trail_head = 0\<rparr>"

section \<open>Rounding\<close>

lemma bit_length_bounds:
  "0 < n \<Longrightarrow> n < 2 ^ bit_length n \<and> 2 ^ bit_length n \<le> 2 * n"
proof (induction n rule: bit_length.induct)
  case (1 n)
  show ?case
  proof (cases "n = 1")
    case True
    then show ?thesis
      by (simp add: bit_length.simps [of 1] bit_length.simps [of 0])
  next
    case False
    with "1.prems" have pos: "0 < n div 2" by simp
    from "1.prems" have ih: "n div 2 < 2 ^ bit_length (n div 2) \<and> 2 ^ bit_length (n div 2) \<le> 2 * (n div 2)"
      using "1.IH" pos by simp
    have eq: "bit_length n = Suc (bit_length (n div 2))"
      using "1.prems" by (subst bit_length.simps) simp
    from ih show ?thesis unfolding eq by (simp, presburger)
  qed
qed

lemma pow2_powi: "pow2 e = 2 powi e"
  by (simp add: pow2_def power_int_def inverse_eq_divide power_one_over)

lemma pow2_int: "pow2 (int n) = 2 ^ n"
  by (simp add: pow2_def)

lemma pow2_neg_int: "pow2 (- int n) = 1 / 2 ^ n"
  by (simp add: pow2_powi power_int_minus_divide)

lemma pow2_pos: "0 < pow2 e"
  by (simp add: pow2_powi)

lemma pow2_Suc: "pow2 (e + 1) = 2 * pow2 e"
  by (simp add: pow2_powi power_int_add)

lemma pow2_mono: "a \<le> b \<Longrightarrow> pow2 a \<le> pow2 b"
  by (simp add: pow2_powi power_int_increasing)

lemma pow2_less_cancel: "pow2 a < pow2 b \<Longrightarrow> a < b"
  using pow2_mono [of b a] by (cases "a < b") auto

lemma two_power_le_of_int: "(2::int) ^ k \<le> n \<Longrightarrow> (2::rat) ^ k \<le> of_int n"
proof -
  assume "(2::int) ^ k \<le> n"
  then have "(of_int (2 ^ k) :: rat) \<le> of_int n" by (simp only: of_int_le_iff)
  then show ?thesis by simp
qed

lemma of_int_Suc_le_two_power: "n < (2::int) ^ k \<Longrightarrow> of_int n + 1 \<le> (2::rat) ^ k"
proof -
  assume "n < (2::int) ^ k"
  then have "n + 1 \<le> 2 ^ k" by simp
  then have "(of_int (n + 1) :: rat) \<le> of_int (2 ^ k)" by (simp only: of_int_le_iff)
  then show ?thesis by simp
qed

lemma ilog2_bounds:
  assumes "0 < q"
  shows "pow2 (ilog2 q) \<le> q \<and> q < pow2 (ilog2 q + 1)"
proof (cases "1 \<le> q")
  case True
  define n where "n = \<lfloor>q\<rfloor>"
  have n1: "1 \<le> n" using True by (simp add: n_def)
  then have b: "n < 2 ^ bit_length n" "2 ^ bit_length n \<le> 2 * n"
    using bit_length_bounds [of n] by simp_all
  have bl: "0 < bit_length n" using n1 by (subst bit_length.simps) simp
  have il: "ilog2 q = int (bit_length n) - 1" using True by (simp add: ilog2_def n_def)
  have nq: "of_int n \<le> q" "q < of_int n + 1"
    using floor_correct [of q] by (simp_all add: n_def)
  obtain k where k: "bit_length n = Suc k" using bl by (cases "bit_length n") auto
  have "(2::int) ^ k \<le> n" using b by (simp add: k)
  then have "(2::rat) ^ k \<le> of_int n" by (rule two_power_le_of_int)
  with nq have "2 ^ k \<le> q" by linarith
  moreover have "ilog2 q = int k" by (simp add: il k)
  ultimately have lo: "pow2 (ilog2 q) \<le> q" by (simp only: pow2_int)
  have "of_int n + 1 \<le> (2::rat) ^ Suc k" using b(1) unfolding k by (rule of_int_Suc_le_two_power)
  with nq have "q < 2 ^ Suc k" by linarith
  moreover have "ilog2 q + 1 = int (Suc k)" by (simp add: il k)
  ultimately have hi: "q < pow2 (ilog2 q + 1)" by (simp only: pow2_int)
  from lo hi show ?thesis ..
next
  case False
  define r where "r = 1 / q"
  define m where "m = \<lceil>r\<rceil> - 1"
  have r1: "1 < r" using False assms by (simp add: r_def)
  have m1: "1 \<le> m" using r1 by (simp add: m_def less_ceiling_iff)
  have b: "m < 2 ^ bit_length m" "2 ^ bit_length m \<le> 2 * m"
    using bit_length_bounds [of m] m1 by simp_all
  have bl: "0 < bit_length m" using m1 by (subst bit_length.simps) simp
  obtain k where k: "bit_length m = Suc k" using bl by (cases "bit_length m") auto
  have il: "ilog2 q = - int (Suc k)" using False by (simp add: ilog2_def m_def r_def k [symmetric])
  have mr: "of_int m < r" "r \<le> of_int m + 1"
    using ceiling_correct [of r] by (simp_all add: m_def)
  have "of_int m + 1 \<le> (2::rat) ^ Suc k" using b(1) unfolding k by (rule of_int_Suc_le_two_power)
  with mr have "r \<le> 2 ^ Suc k" by linarith
  then have "1 / 2 ^ Suc k \<le> q" using assms by (simp add: r_def field_simps)
  then have lo: "pow2 (ilog2 q) \<le> q" by (simp only: il pow2_neg_int)
  have "(2::int) ^ k \<le> m" using b by (simp add: k)
  then have "(2::rat) ^ k \<le> of_int m" by (rule two_power_le_of_int)
  with mr have "2 ^ k < r" by linarith
  then have "q < 1 / 2 ^ k" using assms by (simp add: r_def field_simps)
  moreover have "ilog2 q + 1 = - int k" by (simp add: il)
  ultimately have hi: "q < pow2 (ilog2 q + 1)" by (simp only: pow2_neg_int)
  from lo hi show ?thesis ..
qed

lemma ilog2_eqI:
  assumes "pow2 k \<le> q" "q < pow2 (k + 1)"
  shows "ilog2 q = k"
proof -
  have q: "0 < q" using assms(1) pow2_pos [of k] by linarith
  note b = ilog2_bounds [OF q]
  have "pow2 k < pow2 (ilog2 q + 1)" using assms b by linarith
  then have 1: "k < ilog2 q + 1" by (rule pow2_less_cancel)
  have "pow2 (ilog2 q) < pow2 (k + 1)" using assms b by linarith
  then have 2: "ilog2 q < k + 1" by (rule pow2_less_cancel)
  from 1 2 show ?thesis by simp
qed

lemma rne_exact: "rne (of_int m) = m"
  by (simp add: rne_def)

lemma rne_eqI: "\<bar>of_int m - x\<bar> < 1 / 2 \<Longrightarrow> rne x = m"
proof -
  assume a: "\<bar>of_int m - x\<bar> < 1 / 2"
  have f: "of_int \<lfloor>x\<rfloor> \<le> x" "x < of_int \<lfloor>x\<rfloor> + 1" using floor_correct [of x] by simp_all
  show ?thesis
  proof (cases "x - of_int \<lfloor>x\<rfloor> < 1 / 2")
    case True
    have "of_int m - 1 < (of_int \<lfloor>x\<rfloor> :: rat)" "(of_int \<lfloor>x\<rfloor> :: rat) < of_int m + 1"
      using a f True by linarith+
    then have "m - 1 < \<lfloor>x\<rfloor>" "\<lfloor>x\<rfloor> < m + 1"
      by (metis of_int_less_iff of_int_diff of_int_1, metis of_int_less_iff of_int_add of_int_1)
    then have "\<lfloor>x\<rfloor> = m" by simp
    with True show ?thesis by (simp add: rne_def Let_def)
  next
    case False
    have "of_int m - 2 < (of_int \<lfloor>x\<rfloor> :: rat)" "(of_int \<lfloor>x\<rfloor> :: rat) < of_int m"
      using a f False by linarith+
    then have "m - 2 < \<lfloor>x\<rfloor>" "\<lfloor>x\<rfloor> < m"
      by (metis of_int_less_iff of_int_diff of_int_numeral, metis of_int_less_iff)
    then have fl: "\<lfloor>x\<rfloor> = m - 1" by simp
    have "(of_int \<lfloor>x\<rfloor> :: rat) = of_int m - 1" using fl by simp
    with a have "1 / 2 < x - of_int \<lfloor>x\<rfloor>" by linarith
    with False fl show ?thesis by (simp add: rne_def Let_def)
  qed
qed

lemma rne_error: "\<bar>of_int (rne x) - x\<bar> \<le> 1 / 2"
proof -
  have f: "of_int \<lfloor>x\<rfloor> \<le> x" "x < of_int \<lfloor>x\<rfloor> + 1" using floor_correct [of x] by simp_all
  then show ?thesis
    by (auto simp: rne_def Let_def abs_le_iff) 
qed


lemma round_double_eqI:
  assumes "pow2 k \<le> q" "q < pow2 (k + 1)" "e = max (k - 52) (- 1074)"
    and "\<bar>of_int m - q / pow2 e\<bar> < 1 / 2"
  shows "round_double q = of_int m * pow2 e"
proof -
  have q: "0 < q" using assms(1) pow2_pos [of k] by linarith
  have k: "ilog2 \<bar>q\<bar> = k" using q assms(1,2) by (simp add: ilog2_eqI)
  have "rne (\<bar>q\<bar> / pow2 e) = m" using q assms(4) by (simp add: rne_eqI)
  then show ?thesis using q k assms(3) by (simp add: round_double_def Let_def)
qed

lemma round_double_minus: "round_double (- q) = - round_double q"
  by (simp add: round_double_def Let_def)

lemma round_double_error:
  assumes "0 < q" "q < pow2 (k + 1)"
  shows "\<bar>round_double q - q\<bar> \<le> pow2 (max (k - 52) (- 1074) - 1)"
proof -
  define e where "e = max (ilog2 q - 52) (- 1074)"
  define x where "x = q / pow2 e"
  have "pow2 (ilog2 q) < pow2 (k + 1)" using ilog2_bounds [OF assms(1)] assms(2) by linarith
  then have "ilog2 q < k + 1" by (rule pow2_less_cancel)
  then have le: "e - 1 \<le> max (k - 52) (- 1074) - 1" by (simp add: e_def)
  have pe: "0 < pow2 e" by (rule pow2_pos)
  have rd: "round_double q = of_int (rne x) * pow2 e"
    using assms(1) by (simp add: round_double_def Let_def e_def x_def)
  have qx: "q = x * pow2 e" using pe by (simp add: x_def)
  have "round_double q - q = (of_int (rne x) - x) * pow2 e"
    unfolding rd using qx by (simp add: algebra_simps)
  then have "\<bar>round_double q - q\<bar> = \<bar>of_int (rne x) - x\<bar> * pow2 e"
    using pe by (simp add: abs_mult)
  also have "\<dots> \<le> 1 / 2 * pow2 e"
    using rne_error [of x] pe by (simp add: mult_right_mono)
  also have "\<dots> = pow2 (e - 1)"
    using pow2_Suc [of "e - 1"] by simp
  also have "\<dots> \<le> pow2 (max (k - 52) (- 1074) - 1)"
    using le by (rule pow2_mono)
  finally show ?thesis .
qed

lemma round_double_of_int_pos:
  assumes "0 < i" "i < 2 ^ 53"
  shows "round_double (of_int i) = of_int i"
proof -
  define q :: rat where "q = of_int i"
  define k where "k = ilog2 q"
  have q: "0 < q" "1 \<le> q" using assms(1) by (simp_all add: q_def)
  note b = ilog2_bounds [OF q(1), folded k_def]
  have "q < 2 ^ 53" using assms(2) unfolding q_def
    by (metis of_int_less_iff of_int_numeral of_int_power)
  then have "q < pow2 53" by (simp add: pow2_def)
  with b have "pow2 k < pow2 53" by linarith
  then have k53: "k < 53" by (rule pow2_less_cancel)
  have "pow2 0 \<le> q" using q by (simp add: pow2_def)
  with b have "pow2 0 < pow2 (k + 1)" by linarith
  then have k0: "0 < k + 1" by (rule pow2_less_cancel)
  define n where "n = nat (52 - k)"
  have e: "max (k - 52) (- 1074) = - int n" using k53 k0 by (simp add: n_def)
  have x: "q / pow2 (- int n) = of_int (i * 2 ^ n)"
    by (simp add: pow2_neg_int q_def)
  have "round_double q = of_int (rne (q / pow2 (- int n))) * pow2 (- int n)"
    using q by (simp add: round_double_def Let_def k_def [symmetric] e)
  also have "\<dots> = of_int (i * 2 ^ n) * pow2 (- int n)"
    by (simp only: x rne_exact)
  also have "\<dots> = q"
    by (simp add: pow2_neg_int q_def)
  finally show ?thesis by (simp add: q_def)
qed

lemma round_double_of_int:
  assumes "\<bar>i\<bar> < 2 ^ 53"
  shows "round_double (of_int i) = of_int i"
proof -
  consider "i = 0" | "0 < i" | "i < 0" by linarith
  then show ?thesis
  proof cases
    case 1
    then show ?thesis by (simp add: round_double_def)
  next
    case 2
    then show ?thesis using assms by (simp add: round_double_of_int_pos)
  next
    case 3
    then have "round_double (of_int (- i)) = of_int (- i)"
      using assms by (intro round_double_of_int_pos) simp_all
    then show ?thesis by (simp add: round_double_minus)
  qed
qed

lemma double_of_int_exact: "\<bar>i\<bar> < 2 ^ 53 \<Longrightarrow> double_of_int i = of_int i"
  by (simp add: double_of_int_def round_double_of_int)

section \<open>The fade\<close>

lemma round_double_1: "round_double 1 = 1"
  using round_double_of_int [of 1] by simp

lemma double_of_int_small: "0 \<le> i \<Longrightarrow> i \<le> 50 \<Longrightarrow> double_of_int i = of_int i"
  by (rule double_of_int_exact) simp

lemma round_double_0: "round_double 0 = 0"
  by (simp add: round_double_def)

lemma alpha_at_0: "alpha_at 0 = 1"
  by (simp add: alpha_at_def ddiv_def dsub_def double_of_int_small TRAIL_LENGTH_def
      round_double_0 round_double_1)

lemma alpha_at_error:
  assumes "0 \<le> i" "i < 50"
  shows "\<bar>alpha_at i - (1 - of_int i / 50)\<bar> \<le> 1 / 2 ^ 53"
proof (cases "i = 0")
  case True
  then show ?thesis by (simp add: alpha_at_0)
next
  case False
  define q :: rat where "q = of_int i / 50"
  define d where "d = round_double q"
  have i: "1 \<le> (of_int i :: rat)" "(of_int i :: rat) \<le> 49" using assms False by simp_all
  have q: "1 / 50 \<le> q" "q \<le> 49 / 50" using i by (simp_all add: q_def)
  have "\<bar>d - q\<bar> \<le> pow2 (max (- 1 - 52) (- 1074) - 1)"
    unfolding d_def using q by (intro round_double_error) (simp_all add: pow2_def)
  then have dq: "\<bar>d - q\<bar> \<le> 1 / 18014398509481984" by (simp add: pow2_def)
  have d: "1 / 100 \<le> d" "d \<le> 99 / 100" using dq q by linarith+
  have "\<bar>round_double (1 - d) - (1 - d)\<bar> \<le> pow2 (max (- 1 - 52) (- 1074) - 1)"
    using d by (intro round_double_error) (simp_all add: pow2_def)
  then have e: "\<bar>round_double (1 - d) - (1 - d)\<bar> \<le> 1 / 18014398509481984"
    by (simp add: pow2_def)
  have a: "alpha_at i = round_double (1 - d)"
    using assms by (simp add: alpha_at_def ddiv_def dsub_def double_of_int_small
        TRAIL_LENGTH_def round_double_1 d_def q_def)
  have "\<bar>round_double (1 - d) - (1 - q)\<bar> \<le> 1 / 9007199254740992" using e dq by linarith
  then show ?thesis unfolding a q_def by simp
qed

lemma alpha_at_error_num:
  "0 \<le> i \<Longrightarrow> i < 50 \<Longrightarrow> \<bar>alpha_at i - (1 - of_int i / 50)\<bar> \<le> 1 / 9007199254740992"
  using alpha_at_error [of i] by simp

lemma lit_0_05_error: "\<bar>round_double (5 / 100) - 1 / 20\<bar> \<le> 1 / 18014398509481984"
  using round_double_error [of "5 / 100" "- 1"] by (simp add: pow2_def)

lemma alpha_at_cull:
  assumes "0 \<le> i" "i < 50"
  shows "alpha_at i < round_double (5 / 100) \<longleftrightarrow> 48 \<le> i"
proof (cases "48 \<le> i")
  case True
  then have "(48 :: rat) \<le> of_int i" by simp
  then have "1 - of_int i / 50 \<le> (1 / 25 :: rat)" by simp
  then have "alpha_at i < round_double (5 / 100)"
    using alpha_at_error_num [OF assms] lit_0_05_error by linarith
  with True show ?thesis by simp
next
  case False
  then have "(of_int i :: rat) \<le> 47" by simp
  then have "(3 / 50 :: rat) \<le> 1 - of_int i / 50" by simp
  then have "\<not> alpha_at i < round_double (5 / 100)"
    using alpha_at_error_num [OF assms] lit_0_05_error by linarith
  with False show ?thesis by simp
qed


section \<open>The ring buffer\<close>

lemma c_rem_nonneg: "0 \<le> a \<Longrightarrow> c_rem a TRAIL_LENGTH = a mod 50"
  by (cases "a = 0") (simp_all add: c_rem_def TRAIL_LENGTH_def)

lemma trail_ok_init: "trail_ok init_trail"
  by (simp add: trail_ok_def init_trail_def TRAIL_LENGTH_def)

lemma update_all_fields:
  "(p :: TrailPoint)\<lparr>tp_x := x, tp_y := y, valid := 1, clicked := (if any_button m then 1 else 0)\<rparr>
     = point_of (x, y, m)"
  by (cases p) (simp add: point_of_def)

lemma store_point_ok:
  assumes "trail_ok s"
  shows "store_point x y m s =
           Inr \<lparr>trail_points = (trail_points s)[nat (trail_head s) := point_of (x, y, m)],
                trail_head = (trail_head s + 1) mod 50\<rparr>"
proof -
  have "c_rem (trail_head s + 1) TRAIL_LENGTH = (trail_head s + 1) mod 50"
    using assms by (intro c_rem_nonneg) (simp add: trail_ok_def)
  then show ?thesis
    using assms
    by (simp add: store_point_def array_upd_def trail_ok_def update_all_fields)
qed

lemma store_point_trail_ok:
  assumes "trail_ok s" "store_point x y m s = Inr s'"
  shows "trail_ok s'"
  using assms(2) unfolding store_point_ok [OF assms(1)]
  using assms(1) by (auto simp: trail_ok_def TRAIL_LENGTH_def)

lemma current_index_ok:
  assumes "trail_ok s" "0 \<le> i" "i < 50"
  shows "current_index s i = (trail_head s - 1 - i) mod 50"
proof -
  have "0 \<le> trail_head s - 1 - i + TRAIL_LENGTH"
    using assms by (simp add: trail_ok_def TRAIL_LENGTH_def)
  then have "current_index s i = (trail_head s - 1 - i + TRAIL_LENGTH) mod 50"
    unfolding current_index_def by (rule c_rem_nonneg)
  also have "\<dots> = (trail_head s - 1 - i + 50 * 1) mod 50" by (simp add: TRAIL_LENGTH_def)
  also have "\<dots> = (trail_head s - 1 - i) mod 50" by (rule mod_mult_self2)
  finally show ?thesis .
qed

lemma store_points_snoc:
  "store_points (ps @ [(x, y, m)]) s =
     (case store_points ps s of Inl e \<Rightarrow> Inl e | Inr s' \<Rightarrow> store_point x y m s')"
  by (induction ps s rule: store_points.induct) (auto split: sum.splits)

lemma ring_inv_init: "ring_inv [] init_trail"
proof -
  have "trail_head init_trail = 0" by (simp add: init_trail_def)
  moreover have "trail_points init_trail ! nat (k mod 50) = zero_point" for k :: int
    by (simp add: init_trail_def TRAIL_LENGTH_def nat_less_iff)
  ultimately show ?thesis by (simp add: ring_inv_def trail_ok_init slot_of_age_def)
qed

lemma ring_inv_step:
  assumes "ring_inv ps s"
  shows "\<exists>s'. store_point x y m s = Inr s' \<and> ring_inv (ps @ [(x, y, m)]) s'"
proof -
  let ?n = "int (length ps)"
  let ?s' = "\<lparr>trail_points = (trail_points s)[nat (trail_head s) := point_of (x, y, m)],
               trail_head = (trail_head s + 1) mod 50\<rparr>"
  from assms have ok: "trail_ok s" and h: "trail_head s = ?n mod 50"
    and sl: "\<And>i. 0 \<le> i \<Longrightarrow> i < 50 \<Longrightarrow>
               trail_points s ! nat ((?n - 1 - i) mod 50) = slot_of_age ps i"
    by (simp_all add: ring_inv_def)
  have st: "store_point x y m s = Inr ?s'" by (rule store_point_ok [OF ok])
  have ok': "trail_ok ?s'" using st ok by (rule store_point_trail_ok [rotated])
  have len: "length (trail_points s) = 50" using ok by (simp add: trail_ok_def TRAIL_LENGTH_def)
  have h': "trail_head ?s' = int (length (ps @ [(x, y, m)])) mod 50"
    by (simp add: h mod_simps add.commute)
  have "trail_points ?s' ! nat ((int (length (ps @ [(x, y, m)])) - 1 - i) mod 50)
          = slot_of_age (ps @ [(x, y, m)]) i" if i: "0 \<le> i" "i < 50" for i
  proof (cases "i = 0")
    case True
    then show ?thesis using len by (simp add: h slot_of_age_def)
  next
    case False
    then have i1: "0 \<le> i - 1" "i - 1 < 50" using i by simp_all
    have ne: "(?n - i) mod 50 \<noteq> ?n mod 50"
    proof
      assume "(?n - i) mod 50 = ?n mod 50"
      then have "(?n - (?n - i)) mod 50 = 0" by (metis mod_diff_cong cancel_comm_monoid_add_class.diff_cancel mod_0)
      then show False using i False by simp
    qed
    have "trail_points ?s' ! nat ((int (length (ps @ [(x, y, m)])) - 1 - i) mod 50)
            = trail_points s ! nat ((?n - i) mod 50)"
      using ne by (simp add: h nat_eq_iff)
    also have "\<dots> = slot_of_age ps (i - 1)" using sl [OF i1] by (simp add: algebra_simps)
    also have "\<dots> = slot_of_age (ps @ [(x, y, m)]) i"
      using False i by (auto simp: slot_of_age_def nth_append nat_diff_distrib algebra_simps)
    finally show ?thesis .
  qed
  then have "ring_inv (ps @ [(x, y, m)]) ?s'"
    unfolding ring_inv_def using ok' h' by blast
  with st show ?thesis by blast
qed

lemma ring_inv_store_points: "\<exists>s. store_points ps init_trail = Inr s \<and> ring_inv ps s"
proof (induction ps rule: rev_induct)
  case Nil
  then show ?case by (simp add: ring_inv_init)
next
  case (snoc p ps)
  then obtain s where s: "store_points ps init_trail = Inr s" "ring_inv ps s" by blast
  obtain x y m where p: "p = (x, y, m)" by (cases p)
  from ring_inv_step [OF s(2), of x y m] s(1) show ?case
    by (simp add: p store_points_snoc)
qed

lemma read_age:
  assumes "ring_inv ps s" "0 \<le> i" "i < 50"
  shows "array_get (trail_points s) (current_index s i) = Inr (slot_of_age ps i)"
proof -
  let ?n = "int (length ps)"
  from assms(1) have ok: "trail_ok s" and h: "trail_head s = ?n mod 50"
    and sl: "trail_points s ! nat ((?n - 1 - i) mod 50) = slot_of_age ps i"
    using assms(2,3) by (simp_all add: ring_inv_def)
  have "current_index s i = (?n mod 50 - 1 - i) mod 50"
    using current_index_ok [OF ok assms(2,3)] by (simp add: h)
  also have "\<dots> = (?n mod 50 - (1 + i)) mod 50" by (simp add: algebra_simps)
  also have "\<dots> = (?n - (1 + i)) mod 50" by (rule mod_diff_left_eq)
  also have "\<dots> = (?n - 1 - i) mod 50" by (simp add: algebra_simps)
  finally have ci: "current_index s i = (?n - 1 - i) mod 50" .
  have len: "int (length (trail_points s)) = 50" using ok by (simp add: trail_ok_def TRAIL_LENGTH_def)
  show ?thesis unfolding ci array_get_def using sl len by simp
qed

lemma current_index_range:
  assumes "trail_ok s" "0 \<le> i" "i < 50"
  shows "0 \<le> current_index s i" "current_index s i < 50"
  using current_index_ok [OF assms] by simp_all

lemma draw_point_ok:
  assumes "trail_ok s" "0 \<le> i" "i < 50"
  shows "draw_point s i = Inr (paint_point (trail_points s ! nat (current_index s i)) i)"
  using current_index_range [OF assms] assms(1)
  by (simp add: draw_point_def array_get_def trail_ok_def TRAIL_LENGTH_def)

lemma draw_loop_ok:
  assumes "trail_ok s" "0 \<le> i"
  shows "draw_loop s i =
           Inr (concat (map (\<lambda>j. paint_point (trail_points s ! nat (current_index s j)) j) [i..49]))"
  using assms(2)
proof (induction "nat (50 - i)" arbitrary: i)
  case 0
  then have "\<not> i < TRAIL_LENGTH" by (simp add: TRAIL_LENGTH_def)
  then show ?case using 0 by (subst draw_loop.simps) simp
next
  case (Suc k)
  then have i: "0 \<le> i" "i < 50" by simp_all
  have "k = nat (50 - (i + 1))" using Suc(2) by simp
  then have ih: "draw_loop s (i + 1) =
       Inr (concat (map (\<lambda>j. paint_point (trail_points s ! nat (current_index s j)) j) [i + 1..49]))"
    using Suc(1) [of "i + 1"] i by simp
  have up: "[i..49] = i # [i + 1..49]" using i by (simp add: upto_rec1)
  show ?case
    using i by (subst draw_loop.simps) (simp add: TRAIL_LENGTH_def draw_point_ok [OF assms(1)] ih up)
qed

lemma draw_trail_ok:
  assumes "trail_ok s"
  shows "draw_trail width height s =
           Inr (clear_calls @
                concat (map (\<lambda>j. paint_point (trail_points s ! nat (current_index s j)) j) [0..49]))"
  by (simp add: draw_trail_def draw_loop_ok [OF assms])

lemma ring_inv_trail_ok: "ring_inv ps s \<Longrightarrow> trail_ok s"
  by (simp add: ring_inv_def)

lemma read_age_nth:
  assumes "ring_inv ps s" "0 \<le> i" "i < 50"
  shows "trail_points s ! nat (current_index s i) = slot_of_age ps i"
  using read_age [OF assms] current_index_range [OF ring_inv_trail_ok [OF assms(1)] assms(2,3)]
    ring_inv_trail_ok [OF assms(1)]
  by (simp add: array_get_def trail_ok_def TRAIL_LENGTH_def)

lemma slot_ages_51:
  assumes "length ps = 51" "ring_inv ps s"
  shows "map (\<lambda>i. array_get (trail_points s) (current_index s i)) [0..49]
           = map (\<lambda>p. Inr (point_of p)) (rev (tl ps))"
proof (rule nth_equalityI)
  show "length (map (\<lambda>i. array_get (trail_points s) (current_index s i)) [0..49])
          = length (map (\<lambda>p. Inr (point_of p)) (rev (tl ps)))"
    using assms(1) by simp
next
  fix k
  assume "k < length (map (\<lambda>i. array_get (trail_points s) (current_index s i)) [0..49])"
  then have k: "k < 50" by simp
  then have "[0..49] ! k = int k" by (simp add: nth_upto)
  then have "map (\<lambda>i. array_get (trail_points s) (current_index s i)) [0..49] ! k
               = array_get (trail_points s) (current_index s (int k))"
    using k by simp
  also have "\<dots> = Inr (slot_of_age ps (int k))"
    using k by (intro read_age [OF assms(2)]) simp_all
  also have "\<dots> = Inr (point_of (ps ! (50 - k)))"
    using k assms(1) by (simp add: slot_of_age_def nat_diff_distrib)
  also have "\<dots> = map (\<lambda>p. Inr (point_of p)) (rev (tl ps)) ! k"
  proof -
    have "Suc (49 - k) = 50 - k" using k by simp
    then show ?thesis using k assms(1) by (simp add: rev_nth nth_tl)
  qed
  finally show "map (\<lambda>i. array_get (trail_points s) (current_index s i)) [0..49] ! k
                  = map (\<lambda>p. Inr (point_of p)) (rev (tl ps)) ! k" .
qed

lemma slots_51:
  assumes "length ps = 51" "ring_inv ps s"
  shows "trail_points s = map point_of (ps ! 50 # butlast (tl ps))"
proof (rule nth_equalityI)
  show "length (trail_points s) = length (map point_of (ps ! 50 # butlast (tl ps)))"
    using assms ring_inv_trail_ok [OF assms(2)] by (simp add: trail_ok_def TRAIL_LENGTH_def)
next
  fix j
  assume "j < length (trail_points s)"
  then have j: "j < 50"
    using ring_inv_trail_ok [OF assms(2)] by (simp add: trail_ok_def TRAIL_LENGTH_def)
  from assms(2) have sl: "\<And>i. 0 \<le> i \<Longrightarrow> i < 50 \<Longrightarrow>
      trail_points s ! nat ((int (length ps) - 1 - i) mod 50) = slot_of_age ps i"
    by (simp add: ring_inv_def)
  show "trail_points s ! j = map point_of (ps ! 50 # butlast (tl ps)) ! j"
  proof (cases j)
    case 0
    then show ?thesis using sl [of 0] assms(1) by (simp add: slot_of_age_def)
  next
    case (Suc j')
    then have j': "j' < 49" using j by simp
    have "(50 - (49 - int j')) mod 50 = int j" using j' Suc by simp
    then have "trail_points s ! j = slot_of_age ps (49 - int j')"
      using sl [of "49 - int j'"] j' assms(1) by simp
    also have "\<dots> = point_of (ps ! j)"
      using j' Suc assms(1) by (simp add: slot_of_age_def nat_diff_distrib nat_add_distrib)
    also have "\<dots> = map point_of (ps ! 50 # butlast (tl ps)) ! j"
      using j' Suc assms(1) by (simp add: nth_butlast nth_tl)
    finally show ?thesis .
  qed
qed

section \<open>Specified properties\<close>

subsection \<open>Overwrite ordering\<close>

text \<open>
  C1 (overwrite ordering). Storing \<open>N + 1 = 51\<close> samples \<open>s1, ..., s51\<close> in order, starting
  from the zeroed buffer, never faults and leaves a buffer in which the slot read at age
  \<open>0\<close>, at index \<open>(head - 1 - 0 + N) % N\<close>, holds \<open>s51\<close>, and the slot read at age
  \<open>N - 1\<close> holds \<open>s2\<close>. Read by age \<open>0, ..., N - 1\<close> the slots are
  \<open>s51, s50, ..., s2\<close>, and the array itself is \<open>s51, s2, s3, ..., s50\<close>: \<open>s1\<close> has been
  overwritten by \<open>s51\<close>.
\<close>

theorem overwrite_ordering:
  assumes "int (length ps) = TRAIL_LENGTH + 1"
  shows "\<exists>s. store_points ps init_trail = Inr s \<and>
           array_get (trail_points s) (current_index s 0) = Inr (point_of (ps ! 50)) \<and>
           array_get (trail_points s) (current_index s (TRAIL_LENGTH - 1)) = Inr (point_of (ps ! 1)) \<and>
           map (\<lambda>i. array_get (trail_points s) (current_index s i)) [0..TRAIL_LENGTH - 1]
             = map (\<lambda>p. Inr (point_of p)) (rev (tl ps)) \<and>
           trail_points s = map point_of (ps ! 50 # butlast (tl ps))"
proof -
  have len: "length ps = 51" using assms by (simp add: TRAIL_LENGTH_def)
  obtain s where s: "store_points ps init_trail = Inr s" "ring_inv ps s"
    using ring_inv_store_points [of ps] by blast
  have a0: "array_get (trail_points s) (current_index s 0) = Inr (point_of (ps ! 50))"
    using read_age [OF s(2), of 0] len by (simp add: slot_of_age_def)
  have a49: "array_get (trail_points s) (current_index s 49) = Inr (point_of (ps ! 1))"
    using read_age [OF s(2), of 49] len by (simp add: slot_of_age_def)
  show ?thesis
    using s(1) a0 a49 slot_ages_51 [OF len s(2)] slots_51 [OF len s(2)]
    by (simp add: TRAIL_LENGTH_def)
qed

theorem overwrite_ordering_witness:
  "int (length (map (\<lambda>k. (k, 2 * k, 0 :: 32 word)) [1 .. 51 :: int])) = TRAIL_LENGTH + 1 \<and>
   (\<exists>s. store_points (map (\<lambda>k. (k, 2 * k, 0)) [1..51]) init_trail = Inr s \<and>
        array_get (trail_points s) (current_index s 0)
          = Inr \<lparr>tp_x = 51, tp_y = 102, valid = 1, clicked = 0\<rparr> \<and>
        array_get (trail_points s) (current_index s (TRAIL_LENGTH - 1))
          = Inr \<lparr>tp_x = 2, tp_y = 4, valid = 1, clicked = 0\<rparr>)"
proof -
  let ?ps = "map (\<lambda>k. (k, 2 * k, 0 :: 32 word)) [1..51]"
  have h: "int (length ?ps) = TRAIL_LENGTH + 1" by (simp add: TRAIL_LENGTH_def)
  have "[1..51] ! 50 = (51 :: int)" "[1..51] ! 1 = (2 :: int)"
    by (simp_all add: nth_upto del: upto_rec_numeral)
  then have p: "point_of (?ps ! 50) = \<lparr>tp_x = 51, tp_y = 102, valid = 1, clicked = 0\<rparr>"
    "point_of (?ps ! 1) = \<lparr>tp_x = 2, tp_y = 4, valid = 1, clicked = 0\<rparr>"
    by (simp_all add: point_of_def any_button_def del: upto_rec_numeral)
  obtain s where s: "store_points ?ps init_trail = Inr s"
    "array_get (trail_points s) (current_index s 0) = Inr (point_of (?ps ! 50))"
    "array_get (trail_points s) (current_index s (TRAIL_LENGTH - 1)) = Inr (point_of (?ps ! 1))"
    using overwrite_ordering [OF h] by blast
  show ?thesis using h s unfolding p by blast
qed

subsection \<open>Capacity\<close>

lemma init_all_zero: "list_all (\<lambda>p. p = zero_point \<and> valid p = 0) (trail_points init_trail)"
  by (simp add: init_trail_def list_all_iff zero_point_def)

lemma ring_inv_all_valid:
  assumes "ring_inv ps s" "50 \<le> length ps"
  shows "list_all (\<lambda>p. valid p = 1) (trail_points s)"
proof -
  let ?n = "int (length ps)"
  have len: "length (trail_points s) = 50"
    using ring_inv_trail_ok [OF assms(1)] by (simp add: trail_ok_def TRAIL_LENGTH_def)
  have "valid (trail_points s ! j) = 1" if j: "j < 50" for j
  proof -
    define i where "i = (?n - 1 - int j) mod 50"
    have i: "0 \<le> i" "i < 50" by (simp_all add: i_def)
    have "(?n - 1 - i) mod 50 = (?n - 1 - (?n - 1 - int j)) mod 50"
      unfolding i_def by (rule mod_diff_right_eq)
    also have "\<dots> = int j" using j by simp
    finally have "nat ((?n - 1 - i) mod 50) = j" by simp
    moreover from assms(1) i have "trail_points s ! nat ((?n - 1 - i) mod 50) = slot_of_age ps i"
      by (simp add: ring_inv_def)
    ultimately have "trail_points s ! j = slot_of_age ps i" by simp
    also have "\<dots> = point_of (ps ! nat (?n - 1 - i))"
      using i assms(2) by (simp add: slot_of_age_def)
    finally show ?thesis by (simp add: point_of_def split: prod.splits)
  qed
  then show ?thesis using len by (simp add: list_all_length)
qed

text \<open>
  C2 (capacity invariant). At program start the array has its \<open>N = 50\<close> slots, each
  all-zero and so invalid. Storing any sequence \<open>ps\<close> of samples never faults and leaves
  \<open>N\<close> slots; when at least \<open>N\<close> samples were stored, every slot is valid. One more
  store, of any coordinates \<open>x\<close> and \<open>y\<close> (negative and arbitrarily large ones
  included) and any button mask, succeeds as well and leaves \<open>N\<close> slots.
\<close>

theorem capacity_invariant:
  "int (length (trail_points init_trail)) = TRAIL_LENGTH \<and>
   list_all (\<lambda>p. p = zero_point \<and> valid p = 0) (trail_points init_trail) \<and>
   (\<exists>s s'. store_points ps init_trail = Inr s \<and>
      int (length (trail_points s)) = TRAIL_LENGTH \<and>
      (TRAIL_LENGTH \<le> int (length ps) \<longrightarrow> list_all (\<lambda>p. valid p = 1) (trail_points s)) \<and>
      store_point x y m s = Inr s' \<and>
      int (length (trail_points s')) = TRAIL_LENGTH)"
proof -
  obtain s where s: "store_points ps init_trail = Inr s" "ring_inv ps s"
    using ring_inv_store_points [of ps] by blast
  obtain s' where s': "store_point x y m s = Inr s'" "ring_inv (ps @ [(x, y, m)]) s'"
    using ring_inv_step [OF s(2), of x y m] by blast
  have l: "int (length (trail_points s)) = TRAIL_LENGTH"
    using ring_inv_trail_ok [OF s(2)] by (simp add: trail_ok_def)
  have l': "int (length (trail_points s')) = TRAIL_LENGTH"
    using ring_inv_trail_ok [OF s'(2)] by (simp add: trail_ok_def)
  have v: "TRAIL_LENGTH \<le> int (length ps) \<longrightarrow> list_all (\<lambda>p. valid p = 1) (trail_points s)"
    using ring_inv_all_valid [OF s(2)] by (simp add: TRAIL_LENGTH_def)
  have i: "int (length (trail_points init_trail)) = TRAIL_LENGTH"
    using trail_ok_init by (simp add: trail_ok_def)
  show ?thesis using i init_all_zero s(1) l v s'(1) l' by blast
qed

theorem capacity_invariant_witness:
  "TRAIL_LENGTH \<le> int (length (map (\<lambda>k. (k - 30, 1000000 * k, 0 :: 32 word)) [1 .. 60 :: int])) \<and>
   (\<exists>s s'. store_points (map (\<lambda>k. (k - 30, 1000000 * k, 0)) [1..60]) init_trail = Inr s \<and>
      list_all (\<lambda>p. valid p = 1) (trail_points s) \<and>
      store_point (- 7) 100000 256 s = Inr s')"
proof -
  let ?ps = "map (\<lambda>k. (k - 30, 1000000 * k, 0 :: 32 word)) [1 .. 60 :: int]"
  have h: "TRAIL_LENGTH \<le> int (length ?ps)" by (simp add: TRAIL_LENGTH_def)
  show ?thesis using h capacity_invariant [of ?ps "- 7" 100000 256] by blast
qed

subsection \<open>Array bounds\<close>

lemma main_loop_ok:
  assumes "trail_ok s"
  shows "\<exists>s' evs. main_loop width height rs s = Inr (s', evs) \<and> trail_ok s' \<and>
                  store_points (answered rs) s = Inr s'"
  using assms
proof (induction rs arbitrary: s)
  case Nil
  then show ?case by simp
next
  case (Cons r rs)
  show ?case
  proof (cases r)
    case None
    from Cons.IH [OF Cons.prems] obtain s' evs where
      "main_loop width height rs s = Inr (s', evs)" "trail_ok s'"
      "store_points (answered rs) s = Inr s'" by blast
    then show ?thesis using None by (simp add: loop_body_def)
  next
    case (Some p)
    obtain x y m where p: "p = (x, y, m)" by (cases p)
    obtain s1 where s1: "store_point x y m s = Inr s1"
      using store_point_ok [OF Cons.prems] by blast
    have ok1: "trail_ok s1" using Cons.prems s1 by (rule store_point_trail_ok)
    from Cons.IH [OF ok1] obtain s' evs where
      "main_loop width height rs s1 = Inr (s', evs)" "trail_ok s'"
      "store_points (answered rs) s1 = Inr s'" by blast
    then show ?thesis
      using Some p s1 by (simp add: loop_body_def draw_trail_ok [OF ok1])
  qed
qed

text \<open>
  C9 (array bounds). In every state reached from the zeroed buffer by storing samples, the
  write index \<^verbatim>\<open>trail_head\<close> lies in \<open>[0, N)\<close> and the array has \<open>N\<close> slots, so the
  next store is in bounds; for every age \<open>i\<close> in \<open>[0, N)\<close> the read index
  \<open>(trail_head - 1 - i + N) % N\<close>, with C's truncating remainder, lies in \<open>[0, N)\<close>,
  and the sums it is computed from stay in the range of \<^verbatim>\<open>int\<close>; a render pass in
  that state completes without a fault. No run of the main loop, whatever the queries
  answer, makes an access out of bounds.
\<close>

theorem accesses_in_bounds:
  "(\<exists>s. store_points ps init_trail = Inr s \<and>
      0 \<le> trail_head s \<and> trail_head s < TRAIL_LENGTH \<and>
      int (length (trail_points s)) = TRAIL_LENGTH \<and>
      in_int_range (trail_head s + 1) \<and>
      (\<forall>i. 0 \<le> i \<and> i < TRAIL_LENGTH \<longrightarrow>
         0 \<le> current_index s i \<and> current_index s i < TRAIL_LENGTH \<and>
         in_int_range (trail_head s - 1) \<and> in_int_range (trail_head s - 1 - i) \<and>
         in_int_range (trail_head s - 1 - i + TRAIL_LENGTH) \<and>
         (\<exists>p. array_get (trail_points s) (current_index s i) = Inr p)) \<and>
      (\<exists>calls. draw_trail width height s = Inr calls)) \<and>
   (\<exists>s evs. main_loop width height results init_trail = Inr (s, evs))"
proof -
  obtain s where s: "store_points ps init_trail = Inr s" "ring_inv ps s"
    using ring_inv_store_points [of ps] by blast
  have ok: "trail_ok s" using s(2) by (rule ring_inv_trail_ok)
  then have h: "0 \<le> trail_head s" "trail_head s < TRAIL_LENGTH"
    "int (length (trail_points s)) = TRAIL_LENGTH"
    by (simp_all add: trail_ok_def)
  have r1: "in_int_range (trail_head s + 1)"
    using h by (simp add: in_int_range_def TRAIL_LENGTH_def)
  have rd: "0 \<le> current_index s i \<and> current_index s i < TRAIL_LENGTH \<and>
         in_int_range (trail_head s - 1) \<and> in_int_range (trail_head s - 1 - i) \<and>
         in_int_range (trail_head s - 1 - i + TRAIL_LENGTH) \<and>
         (\<exists>p. array_get (trail_points s) (current_index s i) = Inr p)"
    if "0 \<le> i \<and> i < TRAIL_LENGTH" for i
  proof -
    from that have i: "0 \<le> i" "i < 50" by (simp_all add: TRAIL_LENGTH_def)
    have "in_int_range (trail_head s - 1)" "in_int_range (trail_head s - 1 - i)"
      "in_int_range (trail_head s - 1 - i + TRAIL_LENGTH)"
      using h i by (simp_all add: in_int_range_def TRAIL_LENGTH_def)
    then show ?thesis
      using current_index_range [OF ok i] read_age [OF s(2) i] by (simp add: TRAIL_LENGTH_def)
  qed
  have dt: "\<exists>calls. draw_trail width height s = Inr calls"
    by (simp add: draw_trail_ok [OF ok])
  have ml: "\<exists>s evs. main_loop width height results init_trail = Inr (s, evs)"
    using main_loop_ok [OF trail_ok_init, of width height results] by blast
  show ?thesis using s(1) h r1 rd dt ml by blast
qed

theorem accesses_in_bounds_witness:
  "(\<exists>s. store_points [(5, 6, 0), (7, 8, 256)] init_trail = Inr s \<and>
      trail_head s < TRAIL_LENGTH \<and>
      0 \<le> current_index s 49 \<and> current_index s 49 < TRAIL_LENGTH \<and>
      (\<exists>calls. draw_trail 1920 1080 s = Inr calls)) \<and>
   (\<exists>s evs. main_loop 1920 1080 [Some (5, 6, 0), None, Some (7, 8, 256)] init_trail = Inr (s, evs))"
proof -
  have h: "(0 :: int) \<le> 49 \<and> 49 < TRAIL_LENGTH" by (simp add: TRAIL_LENGTH_def)
  show ?thesis
    using h accesses_in_bounds [of "[(5, 6, 0), (7, 8, 256)]" 1920 1080
        "[Some (5, 6, 0), None, Some (7, 8, 256)]"]
    by blast
qed

subsection \<open>Failed pointer queries\<close>

lemma main_loop_append:
  "main_loop width height (rs @ rs') s =
     (case main_loop width height rs s of
        Inl e \<Rightarrow> Inl e
      | Inr (s', evs) \<Rightarrow>
          (case main_loop width height rs' s' of
             Inl e \<Rightarrow> Inl e
           | Inr (s'', evs') \<Rightarrow> Inr (s'', evs @ evs')))"
  by (induction rs arbitrary: s) (auto split: sum.splits prod.splits)

lemma main_loop_failures:
  "main_loop width height (replicate n None) s =
     Inr (s, concat (replicate n [PrintQueryFailed, WarnQueryFailed, Usleep 100000,
                                   Usleep UPDATE_INTERVAL]))"
  by (induction n) (simp_all add: loop_body_def)

text \<open>
  C7 (failed query). An iteration whose pointer query fails leaves the buffer and the
  head as they were; it prints the failure on standard output, warns on standard error,
  sleeps 100000 microseconds, which is longer than the regular interval, and then sleeps
  the regular interval. It is not fatal: after any number \<open>n\<close> of failed queries in a
  row the loop goes on with the remaining iterations from the unchanged state, having
  made no Cairo call.
\<close>

theorem query_failure_retries:
  "loop_body width height None s =
     Inr (s, [PrintQueryFailed, WarnQueryFailed, Usleep 100000, Usleep UPDATE_INTERVAL]) \<and>
   UPDATE_INTERVAL < 100000 \<and>
   main_loop width height (replicate n None @ results) s =
     (case main_loop width height results s of
        Inl e \<Rightarrow> Inl e
      | Inr (s', evs) \<Rightarrow>
          Inr (s', concat (replicate n [PrintQueryFailed, WarnQueryFailed, Usleep 100000,
                                        Usleep UPDATE_INTERVAL]) @ evs)) \<and>
   main_loop width height (replicate n None) s =
     Inr (s, concat (replicate n [PrintQueryFailed, WarnQueryFailed, Usleep 100000,
                                   Usleep UPDATE_INTERVAL]))"
proof -
  have "UPDATE_INTERVAL < 100000" by (simp add: UPDATE_INTERVAL_def)
  then show ?thesis
    by (simp add: main_loop_append main_loop_failures loop_body_def)
qed

subsection \<open>Fade and cull threshold\<close>

lemma paint_point_invalid: "valid p = 0 \<Longrightarrow> paint_point p i = []"
  by (simp add: paint_point_def)

lemma paint_point_culled: "48 \<le> i \<Longrightarrow> i < 50 \<Longrightarrow> paint_point p i = []"
  using alpha_at_cull [of i] by (simp add: paint_point_def Let_def)

lemma paint_point_painted:
  assumes "valid p \<noteq> 0" "0 \<le> i" "i \<le> 47"
  shows "paint_point p i =
    [if clicked p \<noteq> 0
     then cairo_set_source_rgba CLICK_R CLICK_G CLICK_B (dmul (alpha_at i) (round_double (9 / 10)))
     else cairo_set_source_rgba TRAIL_R TRAIL_G TRAIL_B (dmul (alpha_at i) (round_double (8 / 10))),
     cairo_arc (double_of_int (tp_x p)) (double_of_int (tp_y p)) TRAIL_RADIUS
       (double_of_int 0) (dmul (double_of_int 2) M_PI),
     cairo_fill]"
proof -
  have "\<not> alpha_at i < round_double (5 / 100)"
    using alpha_at_cull [of i] assms(2,3) by simp
  then show ?thesis using assms(1) by (simp add: paint_point_def Let_def)
qed

lemma paint_point_empty_iff:
  assumes "valid p \<noteq> 0" "0 \<le> i" "i < 50"
  shows "paint_point p i = [] \<longleftrightarrow> 48 \<le> i"
proof (cases "48 \<le> i")
  case True
  then show ?thesis using assms(3) by (simp add: paint_point_culled)
next
  case False
  then have "i \<le> 47" by simp
  from paint_point_painted [OF assms(1,2) this] False show ?thesis by simp
qed

lemma draw_loop_step:
  assumes "trail_ok s" "0 \<le> i" "i < 50"
  shows "draw_loop s i =
    (case draw_loop s (i + 1) of
       Inl e \<Rightarrow> Inl e
     | Inr rest \<Rightarrow> Inr (paint_point (trail_points s ! nat (current_index s i)) i @ rest))"
  using assms(2,3)
  by (subst draw_loop.simps) (simp add: TRAIL_LENGTH_def draw_point_ok [OF assms])

lemma array_get_nth: "array_get a k = Inr p \<Longrightarrow> a ! nat k = p"
  by (simp add: array_get_def split: if_splits)

subsection \<open>Colours and opacity\<close>

lemma click_colour: "CLICK_R = 1" "CLICK_G = 0" "CLICK_B = 0"
  by (simp_all add: CLICK_R_def CLICK_G_def CLICK_B_def round_double_0 round_double_1)

lemma round_double_half: "round_double (1 / 2) = 1 / 2"
  using round_double_eqI [where k = "- 1" and q = "1 / 2" and e = "- 53" and m = "2 ^ 52"]
  by (simp add: pow2_def)

lemma trail_colour:
  "TRAIL_G = 1 / 2" "TRAIL_B = 1" "\<bar>TRAIL_R - 2 / 10\<bar> \<le> 1 / 2 ^ 56"
proof -
  show "TRAIL_G = 1 / 2" using round_double_half by (simp add: TRAIL_G_def)
  show "TRAIL_B = 1" by (simp add: TRAIL_B_def round_double_1)
  show "\<bar>TRAIL_R - 2 / 10\<bar> \<le> 1 / 2 ^ 56"
    using round_double_error [of "2 / 10" "- 3"] by (simp add: TRAIL_R_def pow2_def)
qed

lemma opacity_error:
  assumes "0 \<le> i" "i \<le> 47" "0 < c" "c < 1" "1 / 2 \<le> c"
  shows "\<bar>dmul (alpha_at i) (round_double c) - (1 - of_int i / 50) * c\<bar> \<le> 1 / 2 ^ 51"
proof -
  define A :: rat where "A = 1 - of_int i / 50"
  define a where "a = alpha_at i"
  define l where "l = round_double c"
  have "(of_int i :: rat) \<le> 47" "(0 :: rat) \<le> of_int i" using assms by simp_all
  then have A: "3 / 50 \<le> A" "A \<le> 1" by (simp_all add: A_def)
  have ea: "\<bar>a - A\<bar> \<le> 1 / 9007199254740992"
    unfolding a_def A_def using assms by (intro alpha_at_error_num) simp_all
  have "\<bar>l - c\<bar> \<le> pow2 (max (- 1 - 52) (- 1074) - 1)"
    unfolding l_def using assms by (intro round_double_error) (simp_all add: pow2_def)
  then have el: "\<bar>l - c\<bar> \<le> 1 / 18014398509481984" by (simp add: pow2_def)
  have a: "1 / 20 \<le> a" "a \<le> 1 + 1 / 9007199254740992" using ea A by linarith+
  have l: "1 / 4 \<le> l" "l \<le> 1 + 1 / 18014398509481984" using el assms by linarith+
  have "a * l - A * c = a * (l - c) + c * (a - A)" by (simp add: algebra_simps)
  then have "\<bar>a * l - A * c\<bar> \<le> \<bar>a * (l - c)\<bar> + \<bar>c * (a - A)\<bar>" by (simp add: abs_triangle_ineq)
  also have "\<dots> = a * \<bar>l - c\<bar> + c * \<bar>a - A\<bar>" using a assms by (simp add: abs_mult)
  also have "\<dots> \<le> (1 + 1 / 9007199254740992) * (1 / 18014398509481984) + 1 * (1 / 9007199254740992)"
    using a assms ea el by (intro add_mono mult_mono) simp_all
  finally have prod: "\<bar>a * l - A * c\<bar> \<le> 7 / 36028797018963968" by simp
  have "A * c < 1 * 1" using A assms by (intro mult_le_less_imp_less) simp_all
  then have Ac: "A * c < 1" by simp
  have "3 / 50 * (1 / 2) \<le> A * c" using A assms by (intro mult_mono) simp_all
  then have al: "0 < a * l" "a * l < 2" using prod Ac by linarith+
  have "\<bar>round_double (a * l) - a * l\<bar> \<le> pow2 (max (0 - 52) (- 1074) - 1)"
    using al by (intro round_double_error) (simp_all add: pow2_def)
  then have "\<bar>round_double (a * l) - a * l\<bar> \<le> 1 / 9007199254740992" by (simp add: pow2_def)
  with prod have "\<bar>round_double (a * l) - A * c\<bar> \<le> 1 / 2251799813685248" by linarith
  then show ?thesis by (simp add: dmul_def a_def l_def A_def)
qed

lemma alpha_at_0_not_culled: "\<not> alpha_at 0 < round_double (5 / 100)"
  using alpha_at_cull [of 0] by simp

lemma clicked_point_of: "clicked (point_of (x, y, m)) \<noteq> 0 \<longleftrightarrow> any_button m"
  by (simp add: point_of_def)

subsection \<open>Three samples, end to end\<close>

lemma alpha_at_1: "alpha_at 1 = round_double (98 / 100)"
proof -
  have d: "round_double (1 / 50) = 5764607523034235 / 288230376151711744"
    using round_double_eqI [where k = "- 6" and q = "1 / 50" and e = "- 58"
        and m = 5764607523034235]
    by (simp add: pow2_def)
  have a: "round_double (1 - 5764607523034235 / 288230376151711744)
             = 8827055269646172 / 9007199254740992"
    using round_double_eqI [where k = "- 1" and q = "1 - 5764607523034235 / 288230376151711744"
        and e = "- 53" and m = 8827055269646172]
    by (simp add: pow2_def)
  have l: "round_double (98 / 100) = 8827055269646172 / 9007199254740992"
    using round_double_eqI [where k = "- 1" and q = "98 / 100" and e = "- 53"
        and m = 8827055269646172]
    by (simp add: pow2_def)
  have "alpha_at 1 = round_double (1 - round_double (1 / 50))"
    by (simp add: alpha_at_def dsub_def ddiv_def double_of_int_small round_double_1 TRAIL_LENGTH_def)
  then show ?thesis by (simp only: d a l)
qed

lemma alpha_at_2: "alpha_at 2 = round_double (96 / 100)"
proof -
  have d: "round_double (2 / 50) = 5764607523034235 / 144115188075855872"
    using round_double_eqI [where k = "- 5" and q = "2 / 50" and e = "- 57"
        and m = 5764607523034235]
    by (simp add: pow2_def)
  have a: "round_double (1 - 5764607523034235 / 144115188075855872)
             = 8646911284551352 / 9007199254740992"
    using round_double_eqI [where k = "- 1" and q = "1 - 5764607523034235 / 144115188075855872"
        and e = "- 53" and m = 8646911284551352]
    by (simp add: pow2_def)
  have l: "round_double (96 / 100) = 8646911284551352 / 9007199254740992"
    using round_double_eqI [where k = "- 1" and q = "96 / 100" and e = "- 53"
        and m = 8646911284551352]
    by (simp add: pow2_def)
  have "alpha_at 2 = round_double (1 - round_double (2 / 50))"
    by (simp add: alpha_at_def dsub_def ddiv_def double_of_int_small round_double_1 TRAIL_LENGTH_def)
  then show ?thesis by (simp only: d a l)
qed

lemma ring_inv_3:
  assumes "\<not> any_button m1" "any_button m2" "\<not> any_button m3"
    and "ring_inv [(10, 10, m1), (20, 20, m2), (30, 30, m3)] s"
  shows "trail_points s ! nat (current_index s 0) = \<lparr>tp_x = 30, tp_y = 30, valid = 1, clicked = 0\<rparr>"
    and "trail_points s ! nat (current_index s 1) = \<lparr>tp_x = 20, tp_y = 20, valid = 1, clicked = 1\<rparr>"
    and "trail_points s ! nat (current_index s 2) = \<lparr>tp_x = 10, tp_y = 10, valid = 1, clicked = 0\<rparr>"
    and "\<And>i. 3 \<le> i \<Longrightarrow> i < 50 \<Longrightarrow> trail_points s ! nat (current_index s i) = zero_point"
  using assms(1-3) read_age_nth [OF assms(4)]
  by (simp_all add: slot_of_age_def point_of_def)

text \<open>
  C8 (end-to-end scenario). Store \<open>(10, 10)\<close> with no button, \<open>(20, 20)\<close> with a button
  held, \<open>(30, 30)\<close> with no button, in that order, into the zeroed buffer. Read by age, the
  slots are \<open>(30, 30, unclicked)\<close> at age 0, \<open>(20, 20, clicked)\<close> at age 1 and
  \<open>(10, 10, unclicked)\<close> at age 2, all valid, and the 47 older slots are the zeroed,
  invalid ones, which the renderer skips. The alphas are the doubles \<open>1.0\<close>, \<open>0.98\<close>
  and \<open>0.96\<close>, none below the double \<open>0.05\<close>. A render pass clears the surface and
  paints exactly three discs, newest first: the first and the third in the trail colour
  with opacity \<^verbatim>\<open>alpha * 0.8\<close>, the second, of age 1, in the click colour with opacity
  \<^verbatim>\<open>alpha * 0.9\<close>. The two colours differ.
\<close>

theorem end_to_end_scenario:
  assumes "\<not> any_button m1" "any_button m2" "\<not> any_button m3"
  shows "\<exists>s. store_points [(10, 10, m1), (20, 20, m2), (30, 30, m3)] init_trail = Inr s \<and>
    map (\<lambda>i. array_get (trail_points s) (current_index s i)) [0..49] =
      [Inr \<lparr>tp_x = 30, tp_y = 30, valid = 1, clicked = 0\<rparr>,
       Inr \<lparr>tp_x = 20, tp_y = 20, valid = 1, clicked = 1\<rparr>,
       Inr \<lparr>tp_x = 10, tp_y = 10, valid = 1, clicked = 0\<rparr>]
      @ map (\<lambda>i. Inr zero_point) [3..49] \<and>
    valid zero_point = 0 \<and> CLICK_G \<noteq> TRAIL_G \<and>
    alpha_at 0 = 1 \<and> alpha_at 1 = round_double (98 / 100) \<and>
    alpha_at 2 = round_double (96 / 100) \<and>
    \<not> alpha_at 0 < round_double (5 / 100) \<and> \<not> alpha_at 1 < round_double (5 / 100) \<and>
    \<not> alpha_at 2 < round_double (5 / 100) \<and>
    draw_trail width height s =
      Inr (clear_calls @
        [cairo_set_source_rgba TRAIL_R TRAIL_G TRAIL_B (dmul (alpha_at 0) (round_double (8 / 10))),
         cairo_arc 30 30 TRAIL_RADIUS 0 (dmul 2 M_PI),
         cairo_fill,
         cairo_set_source_rgba CLICK_R CLICK_G CLICK_B (dmul (alpha_at 1) (round_double (9 / 10))),
         cairo_arc 20 20 TRAIL_RADIUS 0 (dmul 2 M_PI),
         cairo_fill,
         cairo_set_source_rgba TRAIL_R TRAIL_G TRAIL_B (dmul (alpha_at 2) (round_double (8 / 10))),
         cairo_arc 10 10 TRAIL_RADIUS 0 (dmul 2 M_PI),
         cairo_fill])"
proof -
  let ?ps = "[(10, 10, m1), (20, 20, m2), (30, 30, m3)]"
  obtain s where s: "store_points ?ps init_trail = Inr s" "ring_inv ?ps s"
    using ring_inv_store_points [of ?ps] by blast
  have ok: "trail_ok s" using s(2) by (rule ring_inv_trail_ok)
  have up: "[0..49] = 0 # 1 # 2 # [3..49]"
  proof -
    have "[0..49] = (0 :: int) # [0 + 1..49]" by (rule upto_rec1) simp
    moreover have "[1..49] = (1 :: int) # [1 + 1..49]" by (rule upto_rec1) simp
    moreover have "[2..49] = (2 :: int) # [2 + 1..49]" by (rule upto_rec1) simp
    ultimately show ?thesis by (simp del: upto_rec_numeral)
  qed
  have ages: "map (\<lambda>i. array_get (trail_points s) (current_index s i)) [0..49] =
      [Inr \<lparr>tp_x = 30, tp_y = 30, valid = 1, clicked = 0\<rparr>,
       Inr \<lparr>tp_x = 20, tp_y = 20, valid = 1, clicked = 1\<rparr>,
       Inr \<lparr>tp_x = 10, tp_y = 10, valid = 1, clicked = 0\<rparr>]
      @ map (\<lambda>i. Inr zero_point) [3..49]"
  proof -
    have rest: "map (\<lambda>i. array_get (trail_points s) (current_index s i)) [3..49]
                  = map (\<lambda>i. Inr zero_point) [3..49]"
      by (rule map_cong [OF refl])
         (simp add: read_age [OF s(2)] slot_of_age_def del: upto_rec_numeral)
    show ?thesis
      unfolding up using assms rest
      by (simp add: read_age [OF s(2)] slot_of_age_def point_of_def del: upto_rec_numeral)
  qed
  have nc: "\<not> alpha_at 0 < round_double (5 / 100)" "\<not> alpha_at 1 < round_double (5 / 100)"
    "\<not> alpha_at 2 < round_double (5 / 100)"
    using alpha_at_cull [of 0] alpha_at_cull [of 1] alpha_at_cull [of 2] by simp_all
  have conv: "double_of_int 0 = 0" "double_of_int 2 = 2" "double_of_int 10 = 10"
    "double_of_int 20 = 20" "double_of_int 30 = 30"
    by (simp_all add: double_of_int_small)
  note sl = ring_inv_3 [OF assms s(2)]
  have dt: "draw_trail width height s =
      Inr (clear_calls @
        [cairo_set_source_rgba TRAIL_R TRAIL_G TRAIL_B (dmul (alpha_at 0) (round_double (8 / 10))),
         cairo_arc 30 30 TRAIL_RADIUS 0 (dmul 2 M_PI),
         cairo_fill,
         cairo_set_source_rgba CLICK_R CLICK_G CLICK_B (dmul (alpha_at 1) (round_double (9 / 10))),
         cairo_arc 20 20 TRAIL_RADIUS 0 (dmul 2 M_PI),
         cairo_fill,
         cairo_set_source_rgba TRAIL_R TRAIL_G TRAIL_B (dmul (alpha_at 2) (round_double (8 / 10))),
         cairo_arc 10 10 TRAIL_RADIUS 0 (dmul 2 M_PI),
         cairo_fill])"
  proof -
    have "concat (map (\<lambda>j. paint_point (trail_points s ! nat (current_index s j)) j) [3..49]) = []"
      by (simp add: sl(4) paint_point_invalid zero_point_def del: upto_rec_numeral)
    then show ?thesis
      unfolding draw_trail_ok [OF ok] up
      by (simp add: sl(1-3) paint_point_painted conv del: upto_rec_numeral)
  qed
  have z: "valid zero_point = 0" by (simp add: zero_point_def)
  have cg: "CLICK_G \<noteq> TRAIL_G" by (simp add: click_colour trail_colour)
  show ?thesis
    using s(1) ages z cg alpha_at_0 alpha_at_1 alpha_at_2 nc dt by blast
qed

theorem end_to_end_scenario_witness:
  "\<not> any_button 0 \<and> any_button Button1Mask \<and>
   (\<exists>s. store_points [(10, 10, 0), (20, 20, Button1Mask), (30, 30, 0)] init_trail = Inr s \<and>
     draw_trail 1920 1080 s =
      Inr (clear_calls @
        [cairo_set_source_rgba TRAIL_R TRAIL_G TRAIL_B (dmul (alpha_at 0) (round_double (8 / 10))),
         cairo_arc 30 30 TRAIL_RADIUS 0 (dmul 2 M_PI),
         cairo_fill,
         cairo_set_source_rgba CLICK_R CLICK_G CLICK_B (dmul (alpha_at 1) (round_double (9 / 10))),
         cairo_arc 20 20 TRAIL_RADIUS 0 (dmul 2 M_PI),
         cairo_fill,
         cairo_set_source_rgba TRAIL_R TRAIL_G TRAIL_B (dmul (alpha_at 2) (round_double (8 / 10))),
         cairo_arc 10 10 TRAIL_RADIUS 0 (dmul 2 M_PI),
         cairo_fill]))"
proof -
  have h: "\<not> any_button 0" "any_button Button1Mask"
    by (simp_all add: any_button_def Button1Mask_def Button2Mask_def Button3Mask_def
        Button4Mask_def Button5Mask_def)
  show ?thesis
    using h end_to_end_scenario [OF h(1) h(2) h(1), of 1920 1080] by blast
qed

subsection \<open>Render passes on a surface\<close>

lemma exec_calls_append:
  "exec_calls paint fill (cs @ cs') cr = exec_calls paint fill cs' (exec_calls paint fill cs cr)"
  by (induction cs arbitrary: cr) simp_all

lemma exec_clear_calls:
  "exec_calls paint fill clear_calls cr =
     cr\<lparr>source := (0, 0, 0, 0), operator := CAIRO_OPERATOR_OVER,
        target := paint CAIRO_OPERATOR_SOURCE (0, 0, 0, 0) (target cr)\<rparr>"
  by (simp add: clear_calls_def exec_call_def double_of_int_small)

lemma exec_clear_calls_eq:
  assumes "source_replaces paint" "path cr = path cr'"
  shows "exec_calls paint fill clear_calls (cr :: 'surf cairo_t)
           = exec_calls paint fill clear_calls cr'"
proof -
  have "paint CAIRO_OPERATOR_SOURCE (0, 0, 0, 0) (target cr)
          = paint CAIRO_OPERATOR_SOURCE (0, 0, 0, 0) (target cr')"
    using assms(1) unfolding source_replaces_def by blast
  then show ?thesis
    using assms(2) by (simp add: exec_clear_calls cairo_t.equality)
qed

lemma exec_paint_point_path:
  "path cr = [] \<Longrightarrow> path (exec_calls paint fill (paint_point p i) cr) = []"
  by (simp add: paint_point_def Let_def exec_call_def)

lemma exec_points_path:
  "path cr = [] \<Longrightarrow>
     path (exec_calls paint fill (concat (map (\<lambda>j. paint_point (f j) j) js)) cr) = []"
  by (induction js arbitrary: cr) (simp_all add: exec_calls_append exec_paint_point_path)

lemma render_ok:
  assumes "trail_ok s"
  shows "render paint fill width height s cr =
     Inr (exec_calls paint fill
            (concat (map (\<lambda>j. paint_point (trail_points s ! nat (current_index s j)) j) [0..49]))
            (exec_calls paint fill clear_calls cr))"
  by (simp add: render_def draw_trail_ok [OF assms] exec_calls_append)

lemma render_path:
  assumes "trail_ok s" "path cr = []" "render paint fill width height s cr = Inr cr'"
  shows "path cr' = []"
proof -
  have "path (exec_calls paint fill clear_calls cr) = []"
    using assms(2) by (simp add: exec_clear_calls)
  then show ?thesis
    using assms(3) unfolding render_ok [OF assms(1)]
    by (auto simp: exec_points_path simp del: upto_rec_numeral)
qed

lemma render_eq:
  assumes "source_replaces paint" "trail_ok s" "path cr = path cr'"
  shows "render paint fill width height s (cr :: 'surf cairo_t)
           = render paint fill width height s cr'"
  unfolding render_ok [OF assms(2)] exec_clear_calls_eq [OF assms(1,3)] ..

text \<open>
  C6 (idempotent clear). Every render pass opens with the same four calls: source
  \<open>(0, 0, 0, 0)\<close>, operator SOURCE, paint, operator OVER. Given that a paint with operator
  SOURCE replaces what the surface held, a pass on a context with an empty path, as
  \<^verbatim>\<open>cairo_create\<close> hands it out, leaves a surface that depends on the buffer only:
  two passes in succession on an unchanged buffer leave the same surface as one, whatever
  the surface held before, and the pass leaves the path empty again for the next one.
\<close>

theorem render_idempotent:
  assumes "source_replaces paint" "trail_ok s" "path cr = []" "path cr' = []"
  shows "\<exists>c1 c2 c3 rest.
           render paint fill width height s cr = Inr c1 \<and>
           render paint fill width height s c1 = Inr c2 \<and>
           render paint fill width height s cr' = Inr c3 \<and>
           target c2 = target c1 \<and> target c3 = target c1 \<and> path c1 = [] \<and>
           draw_trail width height s =
             Inr ([cairo_set_source_rgba 0 0 0 0, cairo_set_operator CAIRO_OPERATOR_SOURCE,
                   cairo_paint, cairo_set_operator CAIRO_OPERATOR_OVER] @ rest)"
proof -
  obtain c1 where c1: "render paint fill width height s cr = Inr c1"
    by (simp add: render_ok [OF assms(2)])
  have p1: "path c1 = []" using assms(2,3) c1 by (rule render_path)
  have c2: "render paint fill width height s c1 = Inr c1"
    using render_eq [OF assms(1,2), of c1 cr fill width height] p1 assms(3) c1 by simp
  have c3: "render paint fill width height s cr' = Inr c1"
    using render_eq [OF assms(1,2), of cr' cr fill width height] assms(3,4) c1 by simp
  have dt: "\<exists>rest. draw_trail width height s =
             Inr ([cairo_set_source_rgba 0 0 0 0, cairo_set_operator CAIRO_OPERATOR_SOURCE,
                   cairo_paint, cairo_set_operator CAIRO_OPERATOR_OVER] @ rest)"
    by (simp add: draw_trail_ok [OF assms(2)] clear_calls_def double_of_int_small)
  from c1 c2 c3 p1 dt show ?thesis by blast
qed

theorem render_idempotent_witness:
  "source_replaces log_paint \<and>
   trail_ok \<lparr>trail_points = replicate 50 \<lparr>tp_x = 3, tp_y = 4, valid = 1, clicked = 0\<rparr>,
             trail_head = 0\<rparr> \<and>
   path \<lparr>source = (0, 0, 0, 1), operator = CAIRO_OPERATOR_OVER, path = [],
         target = [Painted CAIRO_OPERATOR_OVER (1, 1, 1, 1)]\<rparr> = [] \<and>
   path \<lparr>source = (1, 0, 0, 1), operator = CAIRO_OPERATOR_SOURCE, path = [],
         target = [] :: mark list\<rparr> = [] \<and>
   (\<exists>c1 c2 c3.
      render log_paint log_fill 800 600
        \<lparr>trail_points = replicate 50 \<lparr>tp_x = 3, tp_y = 4, valid = 1, clicked = 0\<rparr>, trail_head = 0\<rparr>
        \<lparr>source = (0, 0, 0, 1), operator = CAIRO_OPERATOR_OVER, path = [],
         target = [Painted CAIRO_OPERATOR_OVER (1, 1, 1, 1)]\<rparr> = Inr c1 \<and>
      render log_paint log_fill 800 600
        \<lparr>trail_points = replicate 50 \<lparr>tp_x = 3, tp_y = 4, valid = 1, clicked = 0\<rparr>, trail_head = 0\<rparr>
        c1 = Inr c2 \<and>
      render log_paint log_fill 800 600
        \<lparr>trail_points = replicate 50 \<lparr>tp_x = 3, tp_y = 4, valid = 1, clicked = 0\<rparr>, trail_head = 0\<rparr>
        \<lparr>source = (1, 0, 0, 1), operator = CAIRO_OPERATOR_SOURCE, path = [], target = []\<rparr> = Inr c3 \<and>
      target c2 = target c1 \<and> target c3 = target c1)"
proof -
  let ?s = "\<lparr>trail_points = replicate 50 \<lparr>tp_x = 3, tp_y = 4, valid = 1, clicked = 0\<rparr>,
             trail_head = 0\<rparr>"
  let ?cr = "\<lparr>source = (0, 0, 0, 1), operator = CAIRO_OPERATOR_OVER, path = [],
              target = [Painted CAIRO_OPERATOR_OVER (1, 1, 1, 1)]\<rparr>"
  let ?cr' = "\<lparr>source = (1, 0, 0, 1), operator = CAIRO_OPERATOR_SOURCE, path = [],
               target = [] :: mark list\<rparr>"
  have sr: "source_replaces log_paint" by (simp add: source_replaces_def log_paint_def)
  have ok: "trail_ok ?s" by (simp add: trail_ok_def TRAIL_LENGTH_def)
  have p: "path ?cr = []" "path ?cr' = []" by simp_all
  show ?thesis
    using sr ok p render_idempotent [OF sr ok p, of log_fill 800 600] by blast
qed

subsection \<open>The surface dimensions\<close>




subsection \<open>The fade in a render pass\<close>


lemma alpha_at_47_value: "alpha_at 47 = 135107988821115 / 2251799813685248"
proof -
  have d: "round_double (47 / 50) = 2116691824864133 / 2251799813685248"
    using round_double_eqI [where k = "- 1" and q = "47 / 50" and e = "- 53"
        and m = 8466767299456532]
    by (simp add: pow2_def)
  have a: "round_double (1 - 2116691824864133 / 2251799813685248)
             = 135107988821115 / 2251799813685248"
    using round_double_eqI [where k = "- 5" and q = "1 - 2116691824864133 / 2251799813685248"
        and e = "- 57" and m = 8646911284551360]
    by (simp add: pow2_def)
  have "alpha_at 47 = round_double (1 - round_double (47 / 50))"
    by (simp add: alpha_at_def dsub_def ddiv_def double_of_int_small round_double_1 TRAIL_LENGTH_def)
  then show ?thesis by (simp only: d a)
qed

lemma alpha_at_48_value: "alpha_at 48 = 45035996273705 / 1125899906842624"
proof -
  have d: "round_double (48 / 50) = 1080863910568919 / 1125899906842624"
    using round_double_eqI [where k = "- 1" and q = "48 / 50" and e = "- 53"
        and m = 8646911284551352]
    by (simp add: pow2_def)
  have a: "round_double (1 - 1080863910568919 / 1125899906842624)
             = 45035996273705 / 1125899906842624"
    using round_double_eqI [where k = "- 5" and q = "1 - 1080863910568919 / 1125899906842624"
        and e = "- 57" and m = 5764607523034240]
    by (simp add: pow2_def)
  have "alpha_at 48 = round_double (1 - round_double (48 / 50))"
    by (simp add: alpha_at_def dsub_def ddiv_def double_of_int_small round_double_1 TRAIL_LENGTH_def)
  then show ?thesis by (simp only: d a)
qed

lemma lit_0_06_value: "round_double (6 / 100) = 1080863910568919 / 18014398509481984"
  using round_double_eqI [where k = "- 5" and q = "6 / 100" and e = "- 57"
      and m = 8646911284551352]
  by (simp add: pow2_def)

lemma lit_0_04_value: "round_double (4 / 100) = 5764607523034235 / 144115188075855872"
  using round_double_eqI [where k = "- 5" and q = "4 / 100" and e = "- 57"
      and m = 5764607523034235]
  by (simp add: pow2_def)

lemma draw_trail_at:
  assumes "trail_ok s" "0 \<le> i" "i < 50"
    and "array_get (trail_points s) (current_index s i) = Inr p"
  shows "draw_trail width height s =
    Inr (clear_calls
         @ concat (map (\<lambda>j. paint_point (trail_points s ! nat (current_index s j)) j) [0..i - 1])
         @ paint_point p i
         @ concat (map (\<lambda>j. paint_point (trail_points s ! nat (current_index s j)) j)
                     [i + 1..TRAIL_LENGTH - 1]))"
proof -
  have p: "trail_points s ! nat (current_index s i) = p"
    using assms(4) by (rule array_get_nth)
  have "[0..49] = [0..i - 1] @ i # [i + 1..49]"
    using assms(2,3) by (intro upto_split3) simp_all
  then show ?thesis
    unfolding draw_trail_ok [OF assms(1)] by (simp add: p TRAIL_LENGTH_def del: upto_rec_numeral)
qed

lemma uniform_ok: "trail_ok \<lparr>trail_points = replicate 50 p, trail_head = 0\<rparr>"
  by (simp add: trail_ok_def TRAIL_LENGTH_def)

lemma uniform_nth:
  assumes "0 \<le> i" "i < 50"
  shows "trail_points \<lparr>trail_points = replicate 50 p, trail_head = 0\<rparr>
           ! nat (current_index \<lparr>trail_points = replicate 50 p, trail_head = 0\<rparr> i) = p"
  using current_index_range [OF uniform_ok assms, of p] by simp

lemma uniform_read:
  assumes "0 \<le> i" "i < 50"
  shows "array_get (trail_points \<lparr>trail_points = replicate 50 p, trail_head = 0\<rparr>)
           (current_index \<lparr>trail_points = replicate 50 p, trail_head = 0\<rparr> i) = Inr p"
  using current_index_range [OF uniform_ok assms, of p] by (simp add: array_get_def)

lemma uniform_draw_trail:
  "draw_trail width height \<lparr>trail_points = replicate 50 p, trail_head = 0\<rparr>
     = Inr (clear_calls @ concat (map (paint_point p) [0..49]))"
proof -
  have "map (\<lambda>j. paint_point (trail_points \<lparr>trail_points = replicate 50 p, trail_head = 0\<rparr>
                  ! nat (current_index \<lparr>trail_points = replicate 50 p, trail_head = 0\<rparr> j)) j) [0..49]
          = map (paint_point p) [0..49]"
  proof (rule map_cong [OF refl])
    fix j :: int
    assume "j \<in> set [0..49]"
    then have "0 \<le> j" "j < 50" by simp_all
    then show "paint_point (trail_points \<lparr>trail_points = replicate 50 p, trail_head = 0\<rparr>
                  ! nat (current_index \<lparr>trail_points = replicate 50 p, trail_head = 0\<rparr> j)) j
                = paint_point p j"
      by (simp only: uniform_nth)
  qed
  then show ?thesis
    unfolding draw_trail_ok [OF uniform_ok] by (simp only:)
qed

lemma uniform_trail_eq: "uniform_trail p = \<lparr>trail_points = replicate 50 p, trail_head = 0\<rparr>"
  by (simp add: uniform_trail_def TRAIL_LENGTH_def)

lemma uniform_trail_ok: "trail_ok (uniform_trail p)"
  unfolding uniform_trail_eq by (rule uniform_ok)

lemma uniform_trail_read:
  "0 \<le> i \<Longrightarrow> i < 50 \<Longrightarrow>
     array_get (trail_points (uniform_trail p)) (current_index (uniform_trail p) i) = Inr p"
  unfolding uniform_trail_eq by (rule uniform_read)

lemma uniform_trail_draw:
  "draw_trail width height (uniform_trail p) = Inr (clear_calls @ concat (map (paint_point p) [0..49]))"
  unfolding uniform_trail_eq by (rule uniform_draw_trail)

lemma paint_point_valid:
  "valid p \<noteq> 0 \<Longrightarrow>
     paint_point p i =
       (if alpha_at i < round_double (5 / 100) then []
        else [if clicked p \<noteq> 0
                 then cairo_set_source_rgba CLICK_R CLICK_G CLICK_B
                        (dmul (alpha_at i) (round_double (9 / 10)))
                 else cairo_set_source_rgba TRAIL_R TRAIL_G TRAIL_B
                        (dmul (alpha_at i) (round_double (8 / 10))),
                 cairo_arc (double_of_int (tp_x p)) (double_of_int (tp_y p)) TRAIL_RADIUS
                   (double_of_int 0) (dmul (double_of_int 2) M_PI),
                 cairo_fill])"
  by (simp add: paint_point_def Let_def)




text \<open>
  C4 (cull threshold), as amended. Let the slot read at age \<open>i\<close> in \<open>[0, N)\<close> be valid.
  After the clear and the calls for the younger slots, a render pass makes no call for it
  when \<open>48 \<le> i\<close>, and otherwise sets the source, draws the arc and fills; either way the
  calls for the older slots follow, each with its own age, so a culled slot uses up its
  age. The slot is culled exactly when the exact fade \<open>1 - i / N\<close> is below \<open>0.05\<close>, which
  is when \<open>i > 0.95 N\<close>: the test of the code, on the rounded \<^verbatim>\<open>alpha\<close> against the
  rounded literal \<^verbatim>\<open>0.05\<close>, decides as the exact numbers do. At the boundary
  \<^verbatim>\<open>alpha\<close> is \<open>135107988821115 / 2\<^sup>5\<^sup>1\<close> at age 47 and \<open>45035996273705 / 2\<^sup>5\<^sup>0\<close> at
  age 48, the doubles printed \<open>0.06000000000000005\<close> and \<open>0.040000000000000036\<close>: they
  are \<open>0.06\<close> and \<open>0.04\<close> up to \<open>2\<^sup>-\<^sup>5\<^sup>3\<close>, not exactly.
\<close>

theorem cull_threshold:
  assumes "trail_ok s" "0 \<le> i" "i < TRAIL_LENGTH"
    and "array_get (trail_points s) (current_index s i) = Inr p" "valid p \<noteq> 0"
  shows "draw_trail width height s =
           Inr (clear_calls
                @ concat (map (\<lambda>j. paint_point (trail_points s ! nat (current_index s j)) j) [0..i - 1])
                @ (if 48 \<le> i then []
                   else [if clicked p \<noteq> 0
                 then cairo_set_source_rgba CLICK_R CLICK_G CLICK_B
                        (dmul (alpha_at i) (round_double (9 / 10)))
                 else cairo_set_source_rgba TRAIL_R TRAIL_G TRAIL_B
                        (dmul (alpha_at i) (round_double (8 / 10))),
                 cairo_arc (double_of_int (tp_x p)) (double_of_int (tp_y p)) TRAIL_RADIUS
                   (double_of_int 0) (dmul (double_of_int 2) M_PI),
                 cairo_fill])
                @ concat (map (\<lambda>j. paint_point (trail_points s ! nat (current_index s j)) j) [i + 1..TRAIL_LENGTH - 1])) \<and>
         (48 \<le> i \<longleftrightarrow> 1 - of_int i / of_int TRAIL_LENGTH < (5 / 100 :: rat)) \<and>
         (48 \<le> i \<longleftrightarrow> 95 / 100 * of_int TRAIL_LENGTH < (of_int i :: rat)) \<and>
         (48 \<le> i \<longleftrightarrow> alpha_at i < round_double (5 / 100)) \<and>
         alpha_at 47 = 135107988821115 / 2 ^ 51 \<and> alpha_at 48 = 45035996273705 / 2 ^ 50 \<and>
         \<bar>alpha_at 47 - 6 / 100\<bar> \<le> 1 / 2 ^ 53 \<and> \<bar>alpha_at 48 - 4 / 100\<bar> \<le> 1 / 2 ^ 53"
proof -
  from assms have i: "0 \<le> i" "i < 50" by (simp_all add: TRAIL_LENGTH_def)
  have c: "48 \<le> i \<longleftrightarrow> alpha_at i < round_double (5 / 100)"
    using alpha_at_cull [OF i] by simp
  have d: "draw_trail width height s =
           Inr (clear_calls
                @ concat (map (\<lambda>j. paint_point (trail_points s ! nat (current_index s j)) j) [0..i - 1])
                @ (if 48 \<le> i then []
                   else [if clicked p \<noteq> 0
                 then cairo_set_source_rgba CLICK_R CLICK_G CLICK_B
                        (dmul (alpha_at i) (round_double (9 / 10)))
                 else cairo_set_source_rgba TRAIL_R TRAIL_G TRAIL_B
                        (dmul (alpha_at i) (round_double (8 / 10))),
                 cairo_arc (double_of_int (tp_x p)) (double_of_int (tp_y p)) TRAIL_RADIUS
                   (double_of_int 0) (dmul (double_of_int 2) M_PI),
                 cairo_fill])
                @ concat (map (\<lambda>j. paint_point (trail_points s ! nat (current_index s j)) j) [i + 1..TRAIL_LENGTH - 1]))"
    unfolding draw_trail_at [OF assms(1) i assms(4)] paint_point_valid [OF assms(5)] c ..
  have r1: "48 \<le> i \<longleftrightarrow> (1 - of_int i / of_int TRAIL_LENGTH < (5 / 100 :: rat))"
  proof
    assume "48 \<le> i"
    then have "(48 :: rat) \<le> of_int i" by simp
    then show "1 - of_int i / of_int TRAIL_LENGTH < (5 / 100 :: rat)"
      by (simp add: TRAIL_LENGTH_def)
  next
    assume "1 - of_int i / of_int TRAIL_LENGTH < (5 / 100 :: rat)"
    then have "(of_int (47 :: int) :: rat) < of_int i" by (simp add: TRAIL_LENGTH_def)
    then have "47 < i" by (simp only: of_int_less_iff)
    then show "48 \<le> i" by simp
  qed
  have r2: "48 \<le> i \<longleftrightarrow> (95 / 100 * of_int TRAIL_LENGTH < (of_int i :: rat))"
  proof
    assume "48 \<le> i"
    then have "(48 :: rat) \<le> of_int i" by simp
    then show "95 / 100 * of_int TRAIL_LENGTH < (of_int i :: rat)"
      by (simp add: TRAIL_LENGTH_def)
  next
    assume "95 / 100 * of_int TRAIL_LENGTH < (of_int i :: rat)"
    then have "(of_int (47 :: int) :: rat) < of_int i" by (simp add: TRAIL_LENGTH_def)
    then have "47 < i" by (simp only: of_int_less_iff)
    then show "48 \<le> i" by simp
  qed
  have v: "alpha_at 47 = 135107988821115 / 2 ^ 51" "alpha_at 48 = 45035996273705 / 2 ^ 50"
    by (simp_all add: alpha_at_47_value alpha_at_48_value)
  have b: "\<bar>alpha_at 47 - 6 / 100\<bar> \<le> 1 / 2 ^ 53" "\<bar>alpha_at 48 - 4 / 100\<bar> \<le> 1 / 2 ^ 53"
    using alpha_at_error [of 47] alpha_at_error [of 48] by simp_all
  show ?thesis using d r1 r2 c v b by blast
qed

theorem cull_threshold_witness:
  "trail_ok (uniform_trail \<lparr>tp_x = 3, tp_y = 4, valid = 1, clicked = 0\<rparr>) \<and>
   (0 :: int) \<le> 48 \<and> 48 < TRAIL_LENGTH \<and>
   array_get (trail_points (uniform_trail \<lparr>tp_x = 3, tp_y = 4, valid = 1, clicked = 0\<rparr>)) (current_index (uniform_trail \<lparr>tp_x = 3, tp_y = 4, valid = 1, clicked = 0\<rparr>) 48) = Inr \<lparr>tp_x = 3, tp_y = 4, valid = 1, clicked = 0\<rparr> \<and>
   valid \<lparr>tp_x = 3, tp_y = 4, valid = 1, clicked = 0\<rparr> \<noteq> 0 \<and>
   alpha_at 48 < round_double (5 / 100) \<and>
   draw_trail 100 100 (uniform_trail \<lparr>tp_x = 3, tp_y = 4, valid = 1, clicked = 0\<rparr>) =
     Inr (clear_calls
          @ concat (map (\<lambda>j. paint_point (trail_points (uniform_trail \<lparr>tp_x = 3, tp_y = 4, valid = 1, clicked = 0\<rparr>)
                                 ! nat (current_index (uniform_trail \<lparr>tp_x = 3, tp_y = 4, valid = 1, clicked = 0\<rparr>) j)) j) [0..47])
          @ concat (map (\<lambda>j. paint_point (trail_points (uniform_trail \<lparr>tp_x = 3, tp_y = 4, valid = 1, clicked = 0\<rparr>)
                                 ! nat (current_index (uniform_trail \<lparr>tp_x = 3, tp_y = 4, valid = 1, clicked = 0\<rparr>) j)) j) [49..49])) \<and>
   (0 :: int) \<le> 47 \<and> 47 < TRAIL_LENGTH \<and>
   array_get (trail_points (uniform_trail \<lparr>tp_x = 3, tp_y = 4, valid = 1, clicked = 0\<rparr>)) (current_index (uniform_trail \<lparr>tp_x = 3, tp_y = 4, valid = 1, clicked = 0\<rparr>) 47) = Inr \<lparr>tp_x = 3, tp_y = 4, valid = 1, clicked = 0\<rparr> \<and>
   \<not> alpha_at 47 < round_double (5 / 100) \<and>
   (\<exists>younger older.
      draw_trail 100 100 (uniform_trail \<lparr>tp_x = 3, tp_y = 4, valid = 1, clicked = 0\<rparr>) =
        Inr (clear_calls @ younger
             @ [cairo_set_source_rgba TRAIL_R TRAIL_G TRAIL_B
                  (dmul (alpha_at 47) (round_double (8 / 10))),
                cairo_arc (double_of_int 3) (double_of_int 4) TRAIL_RADIUS
            (double_of_int 0) (dmul (double_of_int 2) M_PI),
                cairo_fill]
             @ older))"
proof -
  let ?p = "\<lparr>tp_x = 3, tp_y = 4, valid = 1, clicked = 0\<rparr>"
  let ?s = "uniform_trail ?p"
  have ok: "trail_ok ?s" by (rule uniform_trail_ok)
  have i: "(0 :: int) \<le> 48" "48 < TRAIL_LENGTH" by (simp_all add: TRAIL_LENGTH_def)
  have rd: "array_get (trail_points ?s) (current_index ?s 48) = Inr ?p"
    by (rule uniform_trail_read) simp_all
  have v: "valid ?p \<noteq> 0" by simp
  note t = cull_threshold [OF ok i rd v, of 100 100]
  from t have c: "alpha_at 48 < round_double (5 / 100)" by simp
  from t have "draw_trail 100 100 ?s =
     Inr (clear_calls
          @ concat (map (\<lambda>j. paint_point (trail_points ?s ! nat (current_index ?s j)) j) [0..47])
          @ concat (map (\<lambda>j. paint_point (trail_points ?s ! nat (current_index ?s j)) j) [49..49]))"
    by (simp add: TRAIL_LENGTH_def del: upto_rec_numeral)
  note d48 = this
  have i': "(0 :: int) \<le> 47" "47 < TRAIL_LENGTH" by (simp_all add: TRAIL_LENGTH_def)
  have rd': "array_get (trail_points ?s) (current_index ?s 47) = Inr ?p"
    by (rule uniform_trail_read) simp_all
  note t' = cull_threshold [OF ok i' rd' v, of 100 100]
  from t' have c': "\<not> alpha_at 47 < round_double (5 / 100)" by simp
  from t' have "\<exists>younger older.
      draw_trail 100 100 ?s =
        Inr (clear_calls @ younger
             @ [cairo_set_source_rgba TRAIL_R TRAIL_G TRAIL_B
                  (dmul (alpha_at 47) (round_double (8 / 10))),
                cairo_arc (double_of_int 3) (double_of_int 4) TRAIL_RADIUS
            (double_of_int 0) (dmul (double_of_int 2) M_PI),
                cairo_fill]
             @ older)"
    by (simp del: upto_rec_numeral) blast
  with ok i rd v c d48 i' rd' c' show ?thesis by blast
qed

theorem cull_boundary_counterexample:
  "draw_trail 100 100 (uniform_trail \<lparr>tp_x = 3, tp_y = 4, valid = 1, clicked = 0\<rparr>)
     = Inr (clear_calls @ concat (map (paint_point \<lparr>tp_x = 3, tp_y = 4, valid = 1, clicked = 0\<rparr>) [0..49])) \<and>
   paint_point \<lparr>tp_x = 3, tp_y = 4, valid = 1, clicked = 0\<rparr> 47
     = [cairo_set_source_rgba TRAIL_R TRAIL_G TRAIL_B (dmul (alpha_at 47) (round_double (8 / 10))),
        cairo_arc (double_of_int 3) (double_of_int 4) TRAIL_RADIUS
            (double_of_int 0) (dmul (double_of_int 2) M_PI),
        cairo_fill] \<and>
   paint_point \<lparr>tp_x = 3, tp_y = 4, valid = 1, clicked = 0\<rparr> 48 = [] \<and>
   alpha_at 47 \<noteq> 6 / 100 \<and> alpha_at 47 \<noteq> round_double (6 / 100) \<and>
   alpha_at 48 \<noteq> 4 / 100 \<and> alpha_at 48 \<noteq> round_double (4 / 100)"
proof -
  have "paint_point \<lparr>tp_x = 3, tp_y = 4, valid = 1, clicked = 0\<rparr> 47
     = [cairo_set_source_rgba TRAIL_R TRAIL_G TRAIL_B (dmul (alpha_at 47) (round_double (8 / 10))),
        cairo_arc (double_of_int 3) (double_of_int 4) TRAIL_RADIUS
            (double_of_int 0) (dmul (double_of_int 2) M_PI),
        cairo_fill]"
    using paint_point_painted [of "\<lparr>tp_x = 3, tp_y = 4, valid = 1, clicked = 0\<rparr>" 47] by simp
  moreover have "paint_point \<lparr>tp_x = 3, tp_y = 4, valid = 1, clicked = 0\<rparr> 48 = []"
    by (rule paint_point_culled) simp_all
  moreover have "alpha_at 47 \<noteq> 6 / 100" "alpha_at 47 \<noteq> round_double (6 / 100)"
    "alpha_at 48 \<noteq> 4 / 100" "alpha_at 48 \<noteq> round_double (4 / 100)"
    unfolding alpha_at_47_value alpha_at_48_value lit_0_06_value lit_0_04_value by simp_all
  ultimately show ?thesis
    using uniform_trail_draw [of 100 100 "\<lparr>tp_x = 3, tp_y = 4, valid = 1, clicked = 0\<rparr>"] by blast
qed

subsection \<open>Colours in a render pass\<close>

text \<open>
  C5 (click colour). Let the slot read at age \<open>i\<close> be valid and not culled. In a render
  pass, after the clear and the calls for the younger slots, the source colour set before
  its disc is drawn and filled is: if its \<^verbatim>\<open>clicked\<close> flag is set, the click colour,
  which is exactly \<open>(1, 0, 0)\<close>, with opacity \<^verbatim>\<open>alpha * 0.9\<close>; if the flag is clear, the
  trail colour \<open>(0.2, 0.5, 1.0)\<close>, where \<open>0.5\<close> and \<open>1.0\<close> are exact and \<open>0.2\<close> is the
  nearest double, with opacity \<^verbatim>\<open>alpha * 0.8\<close>. The products are double products, within
  \<open>2\<^sup>-\<^sup>5\<^sup>1\<close> of \<open>(1 - i / N) * 0.9\<close> and \<open>(1 - i / N) * 0.8\<close>. The flag of a stored
  sample is set exactly when one of the five button bits was in the mask.
\<close>

theorem click_colour_selection:
  assumes "trail_ok s" "0 \<le> i" "i < TRAIL_LENGTH"
    and "array_get (trail_points s) (current_index s i) = Inr p" "valid p \<noteq> 0"
    and "\<not> alpha_at i < round_double (5 / 100)"
  shows "(clicked p \<noteq> 0 \<longrightarrow>
            draw_trail width height s =
           Inr (clear_calls
                @ concat (map (\<lambda>j. paint_point (trail_points s ! nat (current_index s j)) j) [0..i - 1])
                @ [cairo_set_source_rgba 1 0 0 (dmul (alpha_at i) (round_double (9 / 10))),
                 cairo_arc (double_of_int (tp_x p)) (double_of_int (tp_y p)) TRAIL_RADIUS
                   (double_of_int 0) (dmul (double_of_int 2) M_PI),
                 cairo_fill]
                @ concat (map (\<lambda>j. paint_point (trail_points s ! nat (current_index s j)) j) [i + 1..TRAIL_LENGTH - 1]))) \<and>
         (clicked p = 0 \<longrightarrow>
            draw_trail width height s =
           Inr (clear_calls
                @ concat (map (\<lambda>j. paint_point (trail_points s ! nat (current_index s j)) j) [0..i - 1])
                @ [cairo_set_source_rgba (round_double (2 / 10)) (1 / 2) 1
                   (dmul (alpha_at i) (round_double (8 / 10))),
                 cairo_arc (double_of_int (tp_x p)) (double_of_int (tp_y p)) TRAIL_RADIUS
                   (double_of_int 0) (dmul (double_of_int 2) M_PI),
                 cairo_fill]
                @ concat (map (\<lambda>j. paint_point (trail_points s ! nat (current_index s j)) j) [i + 1..TRAIL_LENGTH - 1]))) \<and>
         CLICK_R = 1 \<and> CLICK_G = 0 \<and> CLICK_B = 0 \<and>
         TRAIL_R = round_double (2 / 10) \<and> TRAIL_G = 1 / 2 \<and> TRAIL_B = 1 \<and>
         \<bar>TRAIL_R - 2 / 10\<bar> \<le> 1 / 2 ^ 56 \<and>
         \<bar>dmul (alpha_at i) (round_double (9 / 10)) - (1 - of_int i / of_int TRAIL_LENGTH) * (9 / 10)\<bar>
           \<le> 1 / 2 ^ 51 \<and>
         \<bar>dmul (alpha_at i) (round_double (8 / 10)) - (1 - of_int i / of_int TRAIL_LENGTH) * (8 / 10)\<bar>
           \<le> 1 / 2 ^ 51 \<and>
         (clicked (point_of (x, y, m)) \<noteq> 0 \<longleftrightarrow> any_button m)"
proof -
  from assms have i: "0 \<le> i" "i < 50" by (simp_all add: TRAIL_LENGTH_def)
  have i47: "i \<le> 47" using alpha_at_cull [OF i] assms(6) by simp
  note dt = draw_trail_at [OF assms(1) i assms(4), of width height]
  note pp = paint_point_painted [OF assms(5) i(1) i47]
  have c1: "clicked p \<noteq> 0 \<longrightarrow>
            draw_trail width height s =
           Inr (clear_calls
                @ concat (map (\<lambda>j. paint_point (trail_points s ! nat (current_index s j)) j) [0..i - 1])
                @ [cairo_set_source_rgba 1 0 0 (dmul (alpha_at i) (round_double (9 / 10))),
                 cairo_arc (double_of_int (tp_x p)) (double_of_int (tp_y p)) TRAIL_RADIUS
                   (double_of_int 0) (dmul (double_of_int 2) M_PI),
                 cairo_fill]
                @ concat (map (\<lambda>j. paint_point (trail_points s ! nat (current_index s j)) j) [i + 1..TRAIL_LENGTH - 1]))"
    unfolding dt pp by (simp add: click_colour del: upto_rec_numeral)
  have c0: "clicked p = 0 \<longrightarrow>
            draw_trail width height s =
           Inr (clear_calls
                @ concat (map (\<lambda>j. paint_point (trail_points s ! nat (current_index s j)) j) [0..i - 1])
                @ [cairo_set_source_rgba (round_double (2 / 10)) (1 / 2) 1
                   (dmul (alpha_at i) (round_double (8 / 10))),
                 cairo_arc (double_of_int (tp_x p)) (double_of_int (tp_y p)) TRAIL_RADIUS
                   (double_of_int 0) (dmul (double_of_int 2) M_PI),
                 cairo_fill]
                @ concat (map (\<lambda>j. paint_point (trail_points s ! nat (current_index s j)) j) [i + 1..TRAIL_LENGTH - 1]))"
    unfolding dt pp using trail_colour(1,2) by (simp add: TRAIL_R_def del: upto_rec_numeral)
  have o9: "\<bar>dmul (alpha_at i) (round_double (9 / 10)) - (1 - of_int i / of_int TRAIL_LENGTH) * (9 / 10)\<bar>
           \<le> 1 / 2 ^ 51"
    using opacity_error [OF i(1) i47, of "9 / 10"] by (simp add: TRAIL_LENGTH_def)
  have o8: "\<bar>dmul (alpha_at i) (round_double (8 / 10)) - (1 - of_int i / of_int TRAIL_LENGTH) * (8 / 10)\<bar>
           \<le> 1 / 2 ^ 51"
    using opacity_error [OF i(1) i47, of "8 / 10"] by (simp add: TRAIL_LENGTH_def)
  have tr: "TRAIL_R = round_double (2 / 10)" by (simp add: TRAIL_R_def)
  show ?thesis
    using c1 c0 click_colour trail_colour tr o9 o8 clicked_point_of [of x y m] by blast
qed

theorem click_colour_selection_witness:
  "trail_ok (uniform_trail \<lparr>tp_x = 3, tp_y = 4, valid = 1, clicked = 1\<rparr>) \<and>
   (0 :: int) \<le> 5 \<and> 5 < TRAIL_LENGTH \<and>
   array_get (trail_points (uniform_trail \<lparr>tp_x = 3, tp_y = 4, valid = 1, clicked = 1\<rparr>)) (current_index (uniform_trail \<lparr>tp_x = 3, tp_y = 4, valid = 1, clicked = 1\<rparr>) 5) = Inr \<lparr>tp_x = 3, tp_y = 4, valid = 1, clicked = 1\<rparr> \<and>
   valid \<lparr>tp_x = 3, tp_y = 4, valid = 1, clicked = 1\<rparr> \<noteq> 0 \<and>
   \<not> alpha_at 5 < round_double (5 / 100) \<and>
   clicked \<lparr>tp_x = 3, tp_y = 4, valid = 1, clicked = 1\<rparr> \<noteq> 0 \<and>
   draw_trail 100 100 (uniform_trail \<lparr>tp_x = 3, tp_y = 4, valid = 1, clicked = 1\<rparr>) =
     Inr (clear_calls
          @ concat (map (\<lambda>j. paint_point (trail_points (uniform_trail \<lparr>tp_x = 3, tp_y = 4, valid = 1, clicked = 1\<rparr>)
                                 ! nat (current_index (uniform_trail \<lparr>tp_x = 3, tp_y = 4, valid = 1, clicked = 1\<rparr>) j)) j) [0..4])
          @ [cairo_set_source_rgba 1 0 0 (dmul (alpha_at 5) (round_double (9 / 10))),
             cairo_arc (double_of_int 3) (double_of_int 4) TRAIL_RADIUS
            (double_of_int 0) (dmul (double_of_int 2) M_PI),
             cairo_fill]
          @ concat (map (\<lambda>j. paint_point (trail_points (uniform_trail \<lparr>tp_x = 3, tp_y = 4, valid = 1, clicked = 1\<rparr>)
                                 ! nat (current_index (uniform_trail \<lparr>tp_x = 3, tp_y = 4, valid = 1, clicked = 1\<rparr>) j)) j) [6..49]))"
proof -
  let ?p = "\<lparr>tp_x = 3, tp_y = 4, valid = 1, clicked = 1\<rparr>"
  let ?s = "uniform_trail ?p"
  have ok: "trail_ok ?s" by (rule uniform_trail_ok)
  have i: "(0 :: int) \<le> 5" "5 < TRAIL_LENGTH" by (simp_all add: TRAIL_LENGTH_def)
  have rd: "array_get (trail_points ?s) (current_index ?s 5) = Inr ?p"
    by (rule uniform_trail_read) simp_all
  have v: "valid ?p \<noteq> 0" by simp
  have c: "clicked ?p \<noteq> 0" by simp
  have n: "\<not> alpha_at 5 < round_double (5 / 100)" using alpha_at_cull [of 5] by simp
  from click_colour_selection [OF ok i rd v n, of 100 100] c have
    "draw_trail 100 100 ?s =
     Inr (clear_calls
          @ concat (map (\<lambda>j. paint_point (trail_points ?s ! nat (current_index ?s j)) j) [0..4])
          @ [cairo_set_source_rgba 1 0 0 (dmul (alpha_at 5) (round_double (9 / 10))),
             cairo_arc (double_of_int 3) (double_of_int 4) TRAIL_RADIUS
            (double_of_int 0) (dmul (double_of_int 2) M_PI),
             cairo_fill]
          @ concat (map (\<lambda>j. paint_point (trail_points ?s ! nat (current_index ?s j)) j) [6..49]))"
    by (simp add: TRAIL_LENGTH_def del: upto_rec_numeral)
  with ok i rd v n c show ?thesis by blast
qed

end
